theory Spec2Isabelle
  imports Complex_Main "HOL-Library.Multiset" "HOL-Library.Word"
begin

section \<open>build/run_cmd.go: choosing the execution strategy of a step\<close>

text \<open>
  The fields of \<open>execute.Cmd\<close>, \<open>Step\<close> and \<open>Builder\<close> that \<open>runStrategy\<close>
  reads. \<open>Platform\<close> is a Go \<open>map[string]string\<close>, kept as an association list
  (only its length is read); \<open>REProxyConfig\<close> and \<open>remoteExec\<close> are pointers, \<open>None\<close>
  being \<open>nil\<close>. \<open>reproxyEnabled\<close> is the result of \<open>b.reproxyExec.Enabled()\<close>.
\<close>

record 'c Cmd =
  Pure :: bool
  Platform :: "(string \<times> string) list"
  REProxyConfig :: "'c option"

record 'c Step =
  cmd :: "'c Cmd"

record 'r Builder =
  remoteExec :: "'r option"
  reproxyEnabled :: bool

datatype strategy = RunReproxy | RunRemote | RunLocal

definition allowRemote :: "'r Builder \<Rightarrow> 'c Step \<Rightarrow> bool" where
  "allowRemote b step \<longleftrightarrow> remoteExec b \<noteq> None \<and> length (Platform (cmd step)) > 0"

definition allowREProxy :: "'r Builder \<Rightarrow> 'c Step \<Rightarrow> bool" where
  "allowREProxy b step \<longleftrightarrow> reproxyEnabled b \<and> REProxyConfig (cmd step) \<noteq> None"

definition runStrategy :: "'r Builder \<Rightarrow> 'c Step \<Rightarrow> strategy" where
  "runStrategy b step =
     (if Pure (cmd step) \<and> allowREProxy b step then RunReproxy
      else if Pure (cmd step) \<and> allowRemote b step then RunRemote
      else RunLocal)"

section \<open>Properties of runStrategy\<close>

text \<open>
  C1 (as stated, refuted): a pure step with a remote executor and non-empty platform
  properties is claimed to run remotely even when reproxy is available and the command
  has a reproxy config. The switch tests the reproxy case first, so such a step runs
  through reproxy.
\<close>

theorem runStrategy_prefers_reproxy_counterexample:
  "runStrategy \<lparr>remoteExec = Some (), reproxyEnabled = True\<rparr>
     \<lparr>cmd = \<lparr>Pure = True, Platform = [(''OSFamily'', ''Linux'')],
              REProxyConfig = Some ()\<rparr>\<rparr> = RunReproxy"
  by (simp add: runStrategy_def allowREProxy_def allowRemote_def)

text \<open>
  C1 (amended): reproxy is chosen exactly for a pure command with reproxy enabled and a
  reproxy config; remote execution is chosen exactly for a pure command with a remote
  executor and non-empty platform properties for which reproxy was not chosen; every
  other step runs locally.
\<close>

theorem runStrategy_decision:
  "(runStrategy b step = RunReproxy \<longleftrightarrow>
      Pure (cmd step) \<and> reproxyEnabled b \<and> REProxyConfig (cmd step) \<noteq> None) \<and>
   (runStrategy b step = RunRemote \<longleftrightarrow>
      Pure (cmd step) \<and> remoteExec b \<noteq> None \<and> Platform (cmd step) \<noteq> [] \<and>
      \<not> (reproxyEnabled b \<and> REProxyConfig (cmd step) \<noteq> None)) \<and>
   (runStrategy b step = RunLocal \<longleftrightarrow>
      \<not> (Pure (cmd step) \<and> reproxyEnabled b \<and> REProxyConfig (cmd step) \<noteq> None) \<and>
      \<not> (Pure (cmd step) \<and> remoteExec b \<noteq> None \<and> Platform (cmd step) \<noteq> []))"
  by (auto simp: runStrategy_def allowREProxy_def allowRemote_def)

section \<open>scandeps: PathTable\<close>

text \<open>
  \<open>PathTable\<close> holds a Go map from path to index and the slice of paths by index.
  \<open>GetIndex\<close> mutates the table, so it returns the index together with the new table.
  \<open>GetPath\<close> fails with \<open>fmt.Errorf("invalid path index %d", idx)\<close>.
\<close>

datatype path_index_error = InvalidPathIndex int

record PathTable =
  pathToIdx :: "string \<rightharpoonup> int"
  idxToPath :: "string list"

definition NewPathTable :: PathTable where
  "NewPathTable = \<lparr>pathToIdx = Map.empty, idxToPath = []\<rparr>"

definition GetIndex :: "PathTable \<Rightarrow> string \<Rightarrow> int \<times> PathTable" where
  "GetIndex pt path =
     (case pathToIdx pt path of
        Some idx \<Rightarrow> (idx, pt)
      | None \<Rightarrow>
          (let idx = int (length (idxToPath pt))
           in (idx, pt\<lparr>pathToIdx := (pathToIdx pt)(path \<mapsto> idx),
                       idxToPath := idxToPath pt @ [path]\<rparr>)))"

definition GetPath :: "PathTable \<Rightarrow> int \<Rightarrow> path_index_error + string" where
  "GetPath pt idx =
     (if idx < 0 \<or> idx \<ge> int (length (idxToPath pt)) then Inl (InvalidPathIndex idx)
      else Inr (idxToPath pt ! nat idx))"

text \<open>The table after a sequence of \<open>GetIndex\<close> calls, whose results are dropped.\<close>

fun interns :: "string list \<Rightarrow> PathTable \<Rightarrow> PathTable" where
  "interns [] pt = pt"
| "interns (p # ps) pt = interns ps (snd (GetIndex pt p))"

text \<open>The invariant tying the two fields together.\<close>

definition pt_inv :: "PathTable \<Rightarrow> bool" where
  "pt_inv pt \<longleftrightarrow>
     (\<forall>p i. pathToIdx pt p = Some i \<longleftrightarrow>
        0 \<le> i \<and> i < int (length (idxToPath pt)) \<and> idxToPath pt ! nat i = p)"

lemma pt_inv_New: "pt_inv NewPathTable"
  by (simp add: pt_inv_def NewPathTable_def)

lemma pt_inv_GetIndex:
  assumes "pt_inv pt"
  shows "pt_inv (snd (GetIndex pt p))"
proof (cases "pathToIdx pt p")
  case (Some i)
  then show ?thesis using assms by (simp add: GetIndex_def)
next
  case None
  have notin: "\<And>i. 0 \<le> i \<Longrightarrow> i < int (length (idxToPath pt)) \<Longrightarrow> idxToPath pt ! nat i \<noteq> p"
    using assms None unfolding pt_inv_def by (metis option.distinct(1))
  show ?thesis
    unfolding pt_inv_def
  proof (intro allI)
    fix q i
    show "(pathToIdx (snd (GetIndex pt p)) q = Some i) =
          (0 \<le> i \<and> i < int (length (idxToPath (snd (GetIndex pt p)))) \<and>
           idxToPath (snd (GetIndex pt p)) ! nat i = q)"
    proof (cases "i = int (length (idxToPath pt))")
      case True
      then show ?thesis using None assms
        by (auto simp: GetIndex_def Let_def pt_inv_def nth_append)
    next
      case False
      then show ?thesis using None assms notin[of i]
        by (auto simp: GetIndex_def Let_def pt_inv_def nth_append)
    qed
  qed
qed

lemma pt_inv_interns: "pt_inv pt \<Longrightarrow> pt_inv (interns ps pt)"
  by (induction ps arbitrary: pt) (simp_all add: pt_inv_GetIndex)

lemma GetIndex_recorded: "pathToIdx (snd (GetIndex pt p)) p = Some (fst (GetIndex pt p))"
  by (simp add: GetIndex_def Let_def split: option.splits)

lemma GetIndex_keeps: "pathToIdx pt q = Some i \<Longrightarrow> pathToIdx (snd (GetIndex pt p)) q = Some i"
  by (auto simp: GetIndex_def Let_def split: option.splits)

lemma interns_keeps: "pathToIdx pt q = Some i \<Longrightarrow> pathToIdx (interns ps pt) q = Some i"
  by (induction ps arbitrary: pt) (simp_all add: GetIndex_keeps)

lemma GetIndex_known: "pathToIdx pt p = Some i \<Longrightarrow> GetIndex pt p = (i, pt)"
  by (simp add: GetIndex_def)

lemma GetPath_of_recorded: "pt_inv pt \<Longrightarrow> pathToIdx pt p = Some i \<Longrightarrow> GetPath pt i = Inr p"
  by (auto simp: pt_inv_def GetPath_def)

lemma GetPath_error_iff:
  "pt_inv pt \<Longrightarrow> (\<exists>e. GetPath pt k = Inl e) \<longleftrightarrow> (k < 0 \<or> (\<forall>r. pathToIdx pt r \<noteq> Some k))"
  by (auto simp: pt_inv_def GetPath_def)

lemma pathToIdx_inj: "pt_inv pt \<Longrightarrow> pathToIdx pt p = Some i \<Longrightarrow> pathToIdx pt q = Some i \<Longrightarrow> p = q"
  by (auto simp: pt_inv_def)

text \<open>
  C9: in a table built from \<open>NewPathTable\<close> by any calls \<open>ps\<close> of \<open>GetIndex\<close>, let
  \<open>i\<close> be the index that \<open>GetIndex\<close> returns for a path \<open>p\<close> (the empty string
  included), and let \<open>pt\<close> be the table after any further calls \<open>qs\<close>. Then
  \<open>GetIndex\<close> returns \<open>i\<close> for \<open>p\<close> again and leaves the table as it is,
  \<open>GetPath i\<close> returns \<open>p\<close>, every other path gets an index other than \<open>i\<close>, every
  path the table holds is returned by \<open>GetPath\<close> at its index, no index belongs to two
  paths, and \<open>GetPath k\<close> fails exactly when \<open>k\<close> is negative or no path has index
  \<open>k\<close>.
\<close>

theorem PathTable_interning_bijection:
  "let pt0 = interns ps NewPathTable;
       i = fst (GetIndex pt0 p);
       pt = interns qs (snd (GetIndex pt0 p))
   in GetIndex pt p = (i, pt) \<and>
      GetPath pt i = Inr p \<and>
      (\<forall>q. q \<noteq> p \<longrightarrow> fst (GetIndex pt q) \<noteq> i) \<and>
      (\<forall>q j. pathToIdx pt q = Some j \<longrightarrow> GetIndex pt q = (j, pt) \<and> GetPath pt j = Inr q) \<and>
      (\<forall>q r j. pathToIdx pt q = Some j \<and> pathToIdx pt r = Some j \<longrightarrow> q = r) \<and>
      (\<forall>k. (\<exists>e. GetPath pt k = Inl e) \<longleftrightarrow> (k < 0 \<or> (\<forall>r. pathToIdx pt r \<noteq> Some k)))"
proof -
  define pt0 where "pt0 = interns ps NewPathTable"
  define i where "i = fst (GetIndex pt0 p)"
  define pt1 where "pt1 = snd (GetIndex pt0 p)"
  define pt where "pt = interns qs pt1"
  have inv0: "pt_inv pt0" unfolding pt0_def by (rule pt_inv_interns[OF pt_inv_New])
  have inv1: "pt_inv pt1" unfolding pt1_def by (rule pt_inv_GetIndex[OF inv0])
  have inv: "pt_inv pt" unfolding pt_def by (rule pt_inv_interns[OF inv1])
  have rec1: "pathToIdx pt1 p = Some i" unfolding pt1_def i_def by (rule GetIndex_recorded)
  have rec: "pathToIdx pt p = Some i" unfolding pt_def by (rule interns_keeps[OF rec1])
  have a: "GetIndex pt p = (i, pt)" by (rule GetIndex_known[OF rec])
  have b: "GetPath pt i = Inr p" by (rule GetPath_of_recorded[OF inv rec])
  have c: "\<forall>q. q \<noteq> p \<longrightarrow> fst (GetIndex pt q) \<noteq> i"
  proof (intro allI impI)
    fix q assume "q \<noteq> p"
    have "pathToIdx (snd (GetIndex pt q)) q = Some (fst (GetIndex pt q))"
      by (rule GetIndex_recorded)
    moreover have "pathToIdx (snd (GetIndex pt q)) p = Some i"
      by (rule GetIndex_keeps[OF rec])
    moreover have "pt_inv (snd (GetIndex pt q))" by (rule pt_inv_GetIndex[OF inv])
    ultimately show "fst (GetIndex pt q) \<noteq> i"
      using \<open>q \<noteq> p\<close> pathToIdx_inj by metis
  qed
  have d: "\<forall>q j. pathToIdx pt q = Some j \<longrightarrow> GetIndex pt q = (j, pt) \<and> GetPath pt j = Inr q"
    using GetIndex_known GetPath_of_recorded[OF inv] by blast
  have e: "\<forall>q r j. pathToIdx pt q = Some j \<and> pathToIdx pt r = Some j \<longrightarrow> q = r"
    using pathToIdx_inj[OF inv] by blast
  have f: "\<forall>k. (\<exists>e. GetPath pt k = Inl e) \<longleftrightarrow> (k < 0 \<or> (\<forall>r. pathToIdx pt r \<noteq> Some k))"
    using GetPath_error_iff[OF inv] by blast
  show ?thesis
    unfolding Let_def using a b c d e f
    unfolding pt_def pt1_def i_def pt0_def by blast
qed

theorem PathTable_interning_witness:
  "fst (GetIndex (interns [''a/x.h''] (snd (GetIndex (interns [''a/x.h'', ''b.cc''] NewPathTable) [])))
        []) = 2 \<and>
   GetPath (interns [''a/x.h''] (snd (GetIndex (interns [''a/x.h'', ''b.cc''] NewPathTable) []))) 2
     = Inr [] \<and>
   ''b.cc'' \<noteq> [] \<and>
   fst (GetIndex (interns [''a/x.h''] (snd (GetIndex (interns [''a/x.h'', ''b.cc''] NewPathTable) [])))
        ''b.cc'') = 1 \<and>
   pathToIdx (interns [''a/x.h''] (snd (GetIndex (interns [''a/x.h'', ''b.cc''] NewPathTable) [])))
        ''a/x.h'' = Some 0 \<and>
   GetPath (interns [''a/x.h''] (snd (GetIndex (interns [''a/x.h'', ''b.cc''] NewPathTable) []))) 3
     = Inl (InvalidPathIndex 3) \<and>
   GetPath (interns [''a/x.h''] (snd (GetIndex (interns [''a/x.h'', ''b.cc''] NewPathTable) []))) (- 1)
     = Inl (InvalidPathIndex (- 1))"
  using PathTable_interning_bijection [of "[''a/x.h'', ''b.cc'']" "[]" "[''a/x.h'']"]
  by (simp add: Let_def GetIndex_def GetPath_def NewPathTable_def)

section \<open>hashfs/filesystem.go: following symlinks in ReadFile and Stat\<close>

text \<open>
  The functions of \<open>path/filepath\<close> that \<open>resolveSymlinkPath\<close> and the loops call
  are parameters (\<open>fpRel\<close> returns \<open>None\<close> for an error), and so are
  \<open>hashFS.ReadFile\<close> and \<open>hashFS.Stat\<close>, which read and update the state \<open>'s\<close> of the
  HashFS, and the methods \<open>Target\<close> and \<open>Path\<close> of \<open>FileInfo\<close>. An error of the
  HashFS either is a \<open>SymlinkError\<close> (what \<open>errors.As\<close> tests) or is not.
\<close>

type_synonym byte = "8 word"

record filepath_ops =
  fpIsAbs :: "string \<Rightarrow> bool"
  fpJoin :: "string list \<Rightarrow> string"
  fpDir :: "string \<Rightarrow> string"
  fpIsLocal :: "string \<Rightarrow> bool"
  fpToSlash :: "string \<Rightarrow> string"
  fpRel :: "string \<Rightarrow> string \<Rightarrow> string option"

definition resolveSymlinkPath :: "filepath_ops \<Rightarrow> string \<Rightarrow> string \<Rightarrow> string \<Rightarrow> string" where
  "resolveSymlinkPath fp root' path target =
     (let name =
            (if fpIsAbs fp target then target
             else (let name = fpJoin fp [fpDir fp path, target]
                   in if \<not> fpIsAbs fp name \<and> \<not> fpIsLocal fp name
                      then (if path = ''.'' then fpJoin fp [fpDir fp root', name]
                            else fpJoin fp [root', name])
                      else name));
          name = fpToSlash fp name
      in case fpRel fp root' name of
           Some relPath \<Rightarrow>
             if fpIsLocal fp relPath then fpToSlash fp relPath else fpToSlash fp name
         | None \<Rightarrow> fpToSlash fp name)"

datatype 'x hfs_error = SymlinkError (sPath: string) (sTarget: string) | OtherError 'x

datatype 'x errno = ELOOP | Cause "'x hfs_error"

datatype 'x fs_PathError = PathError (Op: string) (Path: string) (Err: "'x errno")

datatype 'e FileInfo =
  FileInfo (fi_root: string) (fi_fname: string) (fi_e: "'e option") (fi_fis: "'e FileInfo list")

record ('s, 'x, 'e) hashfs_env =
  fp :: filepath_ops
  hashFS_ReadFile :: "'s \<Rightarrow> string \<Rightarrow> string \<Rightarrow> ('x hfs_error + byte list) \<times> 's"
  hashFS_Stat :: "'s \<Rightarrow> string \<Rightarrow> string \<Rightarrow> ('x hfs_error + 'e FileInfo) \<times> 's"
  fiTarget :: "'e FileInfo \<Rightarrow> string"
  fiPath :: "'e FileInfo \<Rightarrow> string"

text \<open>
  Each loop body starts with \<open>root := fsys.dir; if filepath.IsAbs(name) { root = "" }\<close>.
\<close>

definition lookup_root :: "filepath_ops \<Rightarrow> string \<Rightarrow> string \<Rightarrow> string" where
  "lookup_root ops dir name = (if fpIsAbs ops name then [] else dir)"

text \<open>
  Modelled from the spec: the constant \<open>maxSymlinks\<close> is declared outside the files at
  hand; the spec gives \<open>MAX_SYMLINKS = 40\<close>.
\<close>

definition maxSymlinks :: nat where
  "maxSymlinks = 40"

fun ReadFile_loop ::
  "('s, 'x, 'e) hashfs_env \<Rightarrow> string \<Rightarrow> string \<Rightarrow> nat \<Rightarrow> string \<Rightarrow> 's
     \<Rightarrow> ('x fs_PathError + byte list) \<times> 's" where
  "ReadFile_loop E dir pathname 0 name s = (Inl (PathError ''readfile'' pathname ELOOP), s)"
| "ReadFile_loop E dir pathname (Suc n) name s =
     (let root' = lookup_root (fp E) dir name
      in case hashFS_ReadFile E s root' name of
           (Inl err, s') \<Rightarrow>
             (case err of
                SymlinkError p t \<Rightarrow>
                  ReadFile_loop E dir pathname n (resolveSymlinkPath (fp E) dir p t) s'
              | OtherError x \<Rightarrow> (Inl (PathError ''readfile'' pathname (Cause err)), s'))
         | (Inr buf, s') \<Rightarrow> (Inr buf, s'))"

definition ReadFile ::
  "('s, 'x, 'e) hashfs_env \<Rightarrow> string \<Rightarrow> string \<Rightarrow> 's \<Rightarrow> ('x fs_PathError + byte list) \<times> 's" where
  "ReadFile E dir name s = ReadFile_loop E dir name maxSymlinks name s"

fun Stat_loop ::
  "('s, 'x, 'e) hashfs_env \<Rightarrow> string \<Rightarrow> string \<Rightarrow> nat \<Rightarrow> string \<Rightarrow> 'e FileInfo list \<Rightarrow> 's
     \<Rightarrow> ('e FileInfo \<times> 'x fs_PathError option) \<times> 's" where
  "Stat_loop E dir pathname 0 name fs s =
     ((FileInfo dir pathname None fs, Some (PathError ''stat'' pathname ELOOP)), s)"
| "Stat_loop E dir pathname (Suc n) name fs s =
     (let root' = lookup_root (fp E) dir name
      in case hashFS_Stat E s root' name of
           (Inl err, s') \<Rightarrow>
             ((FileInfo root' name None fs, Some (PathError ''stat'' pathname (Cause err))), s')
         | (Inr fi, s') \<Rightarrow>
             (let target = fiTarget E fi
              in if target = [] then ((FileInfo (fi_root fi) (fi_fname fi) (fi_e fi) fs, None), s')
                 else Stat_loop E dir pathname n
                        (resolveSymlinkPath (fp E) dir (fiPath E fi) target) (fs @ [fi]) s'))"

definition Stat ::
  "('s, 'x, 'e) hashfs_env \<Rightarrow> string \<Rightarrow> string \<Rightarrow> 's
     \<Rightarrow> ('e FileInfo \<times> 'x fs_PathError option) \<times> 's" where
  "Stat E dir name s = Stat_loop E dir name maxSymlinks name [] s"

text \<open>The next k lookups, starting at name, all meet a symlink.\<close>

fun readfile_symlinks :: "('s, 'x, 'e) hashfs_env \<Rightarrow> string \<Rightarrow> nat \<Rightarrow> string \<Rightarrow> 's \<Rightarrow> bool" where
  "readfile_symlinks E dir 0 name s = True"
| "readfile_symlinks E dir (Suc k) name s =
     (case hashFS_ReadFile E s (lookup_root (fp E) dir name) name of
        (Inl (SymlinkError p t), s') \<Rightarrow>
          readfile_symlinks E dir k (resolveSymlinkPath (fp E) dir p t) s'
      | _ \<Rightarrow> False)"

fun stat_symlinks :: "('s, 'x, 'e) hashfs_env \<Rightarrow> string \<Rightarrow> nat \<Rightarrow> string \<Rightarrow> 's \<Rightarrow> bool" where
  "stat_symlinks E dir 0 name s = True"
| "stat_symlinks E dir (Suc k) name s =
     (case hashFS_Stat E s (lookup_root (fp E) dir name) name of
        (Inr fi, s') \<Rightarrow>
          fiTarget E fi \<noteq> [] \<and>
          stat_symlinks E dir k (resolveSymlinkPath (fp E) dir (fiPath E fi) (fiTarget E fi)) s'
      | _ \<Rightarrow> False)"

text \<open>The number of calls of hashFS.ReadFile that the loop makes.\<close>

fun ReadFile_lookups :: "('s, 'x, 'e) hashfs_env \<Rightarrow> string \<Rightarrow> nat \<Rightarrow> string \<Rightarrow> 's \<Rightarrow> nat" where
  "ReadFile_lookups E dir 0 name s = 0"
| "ReadFile_lookups E dir (Suc n) name s =
     (case hashFS_ReadFile E s (lookup_root (fp E) dir name) name of
        (Inl (SymlinkError p t), s') \<Rightarrow>
          Suc (ReadFile_lookups E dir n (resolveSymlinkPath (fp E) dir p t) s')
      | _ \<Rightarrow> 1)"

lemma readfile_symlinks_mono:
  "readfile_symlinks E dir k name s \<Longrightarrow> j \<le> k \<Longrightarrow> readfile_symlinks E dir j name s"
proof (induction j arbitrary: k name s)
  case 0
  then show ?case by simp
next
  case (Suc j)
  then obtain k' where k: "k = Suc k'" by (cases k) auto
  with Suc show ?case
    by (auto split: prod.splits sum.splits hfs_error.splits)
qed

lemma stat_symlinks_mono:
  "stat_symlinks E dir k name s \<Longrightarrow> j \<le> k \<Longrightarrow> stat_symlinks E dir j name s"
proof (induction j arbitrary: k name s)
  case 0
  then show ?case by simp
next
  case (Suc j)
  then obtain k' where k: "k = Suc k'" by (cases k) auto
  with Suc show ?case
    by (auto split: prod.splits sum.splits)
qed

lemma ReadFile_loop_ELOOP:
  "readfile_symlinks E dir n name s \<Longrightarrow>
   fst (ReadFile_loop E dir pathname n name s) = Inl (PathError ''readfile'' pathname ELOOP)"
  by (induction n arbitrary: name s)
     (auto simp: Let_def split: prod.splits sum.splits hfs_error.splits)

lemma ReadFile_loop_bytes:
  "fst (ReadFile_loop E dir pathname n name s) = Inr buf \<Longrightarrow>
   \<exists>k<n. readfile_symlinks E dir k name s \<and> \<not> readfile_symlinks E dir (Suc k) name s"
proof (induction n arbitrary: name s)
  case 0
  then show ?case by simp
next
  case (Suc n)
  show ?case
  proof (cases "hashFS_ReadFile E s (lookup_root (fp E) dir name) name")
    case (Pair r s')
    show ?thesis
    proof (cases r)
      case (Inr b)
      with Pair have "\<not> readfile_symlinks E dir (Suc 0) name s" by simp
      then show ?thesis by (intro exI[of _ 0]) simp
    next
      case (Inl err)
      show ?thesis
      proof (cases err)
        case (OtherError x)
        with Inl Pair Suc.prems show ?thesis by (simp add: Let_def)
      next
        case (SymlinkError p t)
        with Inl Pair Suc.prems
        have "fst (ReadFile_loop E dir pathname n (resolveSymlinkPath (fp E) dir p t) s') = Inr buf"
          by (simp add: Let_def)
        from Suc.IH[OF this] obtain k where
          "k < n" "readfile_symlinks E dir k (resolveSymlinkPath (fp E) dir p t) s'"
          "\<not> readfile_symlinks E dir (Suc k) (resolveSymlinkPath (fp E) dir p t) s'"
          by blast
        then show ?thesis using SymlinkError Inl Pair
          by (intro exI[of _ "Suc k"]) simp
      qed
    qed
  qed
qed

lemma ReadFile_lookups_le: "ReadFile_lookups E dir n name s \<le> n"
  by (induction n arbitrary: name s)
     (auto split: prod.splits sum.splits hfs_error.splits)

lemma Stat_loop_ELOOP:
  "stat_symlinks E dir n name s \<Longrightarrow>
   snd (fst (Stat_loop E dir pathname n name fs s)) = Some (PathError ''stat'' pathname ELOOP)"
  by (induction n arbitrary: name s fs)
     (auto simp: Let_def split: prod.splits sum.splits)

lemma Stat_loop_fis:
  "length (fi_fis (fst (fst (Stat_loop E dir pathname n name fs s)))) \<le> length fs + n"
proof (induction n arbitrary: name s fs)
  case 0
  then show ?case by simp
next
  case (Suc n)
  show ?case
  proof (cases "hashFS_Stat E s (lookup_root (fp E) dir name) name")
    case (Pair r s')
    show ?thesis
    proof (cases r)
      case (Inl err)
      with Pair show ?thesis by (simp add: Let_def)
    next
      case (Inr fi)
      show ?thesis
      proof (cases "fiTarget E fi = []")
        case True
        with Inr Pair show ?thesis by (simp add: Let_def)
      next
        case False
        have "length (fi_fis (fst (fst (Stat_loop E dir pathname n
                 (resolveSymlinkPath (fp E) dir (fiPath E fi) (fiTarget E fi)) (fs @ [fi]) s'))))
              \<le> length (fs @ [fi]) + n"
          by (rule Suc.IH)
        with False Inr Pair show ?thesis by (simp add: Let_def)
      qed
    qed
  qed
qed

lemma Stat_loop_ok:
  "snd (fst (Stat_loop E dir pathname n name fs s)) = None \<Longrightarrow>
   \<exists>k<n. stat_symlinks E dir k name s \<and> \<not> stat_symlinks E dir (Suc k) name s"
proof (induction n arbitrary: name s fs)
  case 0
  then show ?case by simp
next
  case (Suc n)
  show ?case
  proof (cases "hashFS_Stat E s (lookup_root (fp E) dir name) name")
    case (Pair r s')
    show ?thesis
    proof (cases r)
      case (Inl err)
      with Pair Suc.prems show ?thesis by (simp add: Let_def)
    next
      case (Inr fi)
      show ?thesis
      proof (cases "fiTarget E fi = []")
        case True
        with Inr Pair have "\<not> stat_symlinks E dir (Suc 0) name s" by simp
        then show ?thesis by (intro exI[of _ 0]) simp
      next
        case False
        with Inr Pair Suc.prems
        have "snd (fst (Stat_loop E dir pathname n
                 (resolveSymlinkPath (fp E) dir (fiPath E fi) (fiTarget E fi)) (fs @ [fi]) s')) = None"
          by (simp add: Let_def)
        from Suc.IH[OF this] obtain k where
          "k < n"
          "stat_symlinks E dir k (resolveSymlinkPath (fp E) dir (fiPath E fi) (fiTarget E fi)) s'"
          "\<not> stat_symlinks E dir (Suc k) (resolveSymlinkPath (fp E) dir (fiPath E fi) (fiTarget E fi)) s'"
          by blast
        then show ?thesis using False Inr Pair
          by (intro exI[of _ "Suc k"]) simp
      qed
    qed
  qed
qed


text \<open>A small file system for evaluation.\<close>

definition demo_ops :: filepath_ops where
  "demo_ops = \<lparr>fpIsAbs = (\<lambda>p. take 1 p = ''/''), fpJoin = last, fpDir = (\<lambda>p. ''.''),
                 fpIsLocal = (\<lambda>p. take 1 p \<noteq> ''/''), fpToSlash = (\<lambda>p. p),
                 fpRel = (\<lambda>r p. if take 1 p = ''/'' then None else Some p)\<rparr>"

definition demo_fs :: "(nat, unit, string) hashfs_env" where
  "demo_fs =
     \<lparr>fp = demo_ops,
      hashFS_ReadFile = (\<lambda>s r n.
         (if n = ''a'' then Inl (SymlinkError ''a'' ''b'')
          else if n = ''b'' then Inr [1, 2, 3]
          else Inl (SymlinkError n ''loop''), Suc s)),
      hashFS_Stat = (\<lambda>s r n.
         (Inr (FileInfo r n (Some (if n = ''a'' then ''b'' else if n = ''b'' then [] else ''loop'')) []),
          Suc s)),
      fiTarget = (\<lambda>fi. case fi_e fi of Some t \<Rightarrow> t | None \<Rightarrow> []),
      fiPath = fi_fname\<rparr>"

lemma demo_resolve: "resolveSymlinkPath demo_ops d p ''loop'' = ''loop''"
  "resolveSymlinkPath demo_ops d p ''b'' = ''b''"
  by (simp_all add: resolveSymlinkPath_def demo_ops_def)

lemma demo_readfile_symlinks: "readfile_symlinks demo_fs ''/w'' k ''loop'' s"
  by (induction k arbitrary: s) (simp_all add: demo_fs_def demo_resolve lookup_root_def)

lemma demo_stat_symlinks: "stat_symlinks demo_fs ''/w'' k ''loop'' s"
  by (induction k arbitrary: s) (simp_all add: demo_fs_def demo_resolve lookup_root_def)

lemma ReadFile_loop_numeral:
  "ReadFile_loop E dir pathname (numeral v) name s =
     (case hashFS_ReadFile E s (lookup_root (fp E) dir name) name of
        (Inl (SymlinkError p t), s') \<Rightarrow>
          ReadFile_loop E dir pathname (pred_numeral v) (resolveSymlinkPath (fp E) dir p t) s'
      | (Inl (OtherError x), s') \<Rightarrow> (Inl (PathError ''readfile'' pathname (Cause (OtherError x))), s')
      | (Inr buf, s') \<Rightarrow> (Inr buf, s'))"
  by (simp add: numeral_eq_Suc Let_def split: prod.splits sum.splits hfs_error.splits)

lemma Stat_loop_numeral:
  "Stat_loop E dir pathname (numeral v) name fs s =
     (case hashFS_Stat E s (lookup_root (fp E) dir name) name of
        (Inl err, s') \<Rightarrow>
          ((FileInfo (lookup_root (fp E) dir name) name None fs,
            Some (PathError ''stat'' pathname (Cause err))), s')
      | (Inr fi, s') \<Rightarrow>
          (if fiTarget E fi = [] then ((FileInfo (fi_root fi) (fi_fname fi) (fi_e fi) fs, None), s')
           else Stat_loop E dir pathname (pred_numeral v)
                  (resolveSymlinkPath (fp E) dir (fiPath E fi) (fiTarget E fi)) (fs @ [fi]) s'))"
  by (simp add: numeral_eq_Suc Let_def split: prod.splits sum.splits)

text \<open>
  C7: \<open>ReadFile\<close> and \<open>Stat\<close> run their lookup loop \<open>maxSymlinks = 40\<close> times at
  most. When the lookups from \<open>name\<close> meet \<open>maxSymlinks\<close> symlinks in a row or more (so
  in particular more than \<open>maxSymlinks\<close>), both fail with a \<open>PathError\<close> for the
  given name whose cause is \<open>ELOOP\<close>. When \<open>ReadFile\<close> returns bytes, or \<open>Stat\<close>
  returns no error, fewer than \<open>maxSymlinks\<close> symlinks were followed before the lookup
  that succeeded. \<open>ReadFile\<close> calls \<open>hashFS.ReadFile\<close> at most \<open>maxSymlinks\<close> times,
  and the list of symlinks that \<open>Stat\<close> records in its result has at most
  \<open>maxSymlinks\<close> entries. Both functions are total: they return for every file system.
\<close>

theorem symlink_loop_bound:
  "maxSymlinks = 40 \<and>
   (\<forall>k. maxSymlinks \<le> k \<and> readfile_symlinks E dir k name s \<longrightarrow>
      fst (ReadFile E dir name s) = Inl (PathError ''readfile'' name ELOOP)) \<and>
   (\<forall>buf. fst (ReadFile E dir name s) = Inr buf \<longrightarrow>
      (\<exists>k<maxSymlinks. readfile_symlinks E dir k name s \<and>
                       \<not> readfile_symlinks E dir (Suc k) name s)) \<and>
   ReadFile_lookups E dir maxSymlinks name s \<le> maxSymlinks \<and>
   (\<forall>k. maxSymlinks \<le> k \<and> stat_symlinks E dir k name s \<longrightarrow>
      snd (fst (Stat E dir name s)) = Some (PathError ''stat'' name ELOOP)) \<and>
   (snd (fst (Stat E dir name s)) = None \<longrightarrow>
      (\<exists>k<maxSymlinks. stat_symlinks E dir k name s \<and> \<not> stat_symlinks E dir (Suc k) name s)) \<and>
   length (fi_fis (fst (fst (Stat E dir name s)))) \<le> maxSymlinks"
proof (intro conjI allI impI)
  show "maxSymlinks = 40" by (simp add: maxSymlinks_def)
next
  fix k assume h: "maxSymlinks \<le> k \<and> readfile_symlinks E dir k name s"
  have "readfile_symlinks E dir maxSymlinks name s"
    by (rule readfile_symlinks_mono[OF conjunct2[OF h] conjunct1[OF h]])
  then show "fst (ReadFile E dir name s) = Inl (PathError ''readfile'' name ELOOP)"
    unfolding ReadFile_def by (rule ReadFile_loop_ELOOP)
next
  fix buf assume "fst (ReadFile E dir name s) = Inr buf"
  then show "\<exists>k<maxSymlinks. readfile_symlinks E dir k name s \<and>
                            \<not> readfile_symlinks E dir (Suc k) name s"
    unfolding ReadFile_def by (rule ReadFile_loop_bytes)
next
  show "ReadFile_lookups E dir maxSymlinks name s \<le> maxSymlinks"
    by (rule ReadFile_lookups_le)
next
  fix k assume h: "maxSymlinks \<le> k \<and> stat_symlinks E dir k name s"
  have "stat_symlinks E dir maxSymlinks name s"
    by (rule stat_symlinks_mono[OF conjunct2[OF h] conjunct1[OF h]])
  then show "snd (fst (Stat E dir name s)) = Some (PathError ''stat'' name ELOOP)"
    unfolding Stat_def by (rule Stat_loop_ELOOP)
next
  assume "snd (fst (Stat E dir name s)) = None"
  then show "\<exists>k<maxSymlinks. stat_symlinks E dir k name s \<and> \<not> stat_symlinks E dir (Suc k) name s"
    unfolding Stat_def by (rule Stat_loop_ok)
next
  show "length (fi_fis (fst (fst (Stat E dir name s)))) \<le> maxSymlinks"
    unfolding Stat_def using Stat_loop_fis[of E dir name maxSymlinks name "[]" s] by simp
qed

theorem symlink_loop_bound_witness:
  "maxSymlinks \<le> 41 \<and> readfile_symlinks demo_fs ''/w'' 41 ''loop'' 0 \<and>
   fst (ReadFile demo_fs ''/w'' ''loop'' 0) = Inl (PathError ''readfile'' ''loop'' ELOOP) \<and>
   stat_symlinks demo_fs ''/w'' 41 ''loop'' 0 \<and>
   snd (fst (Stat demo_fs ''/w'' ''loop'' 0)) = Some (PathError ''stat'' ''loop'' ELOOP) \<and>
   fst (ReadFile demo_fs ''/w'' ''a'' 0) = Inr [1, 2, 3] \<and>
   (\<exists>k<maxSymlinks. readfile_symlinks demo_fs ''/w'' k ''a'' 0 \<and>
                    \<not> readfile_symlinks demo_fs ''/w'' (Suc k) ''a'' 0) \<and>
   snd (fst (Stat demo_fs ''/w'' ''a'' 0)) = None \<and>
   (\<exists>k<maxSymlinks. stat_symlinks demo_fs ''/w'' k ''a'' 0 \<and>
                    \<not> stat_symlinks demo_fs ''/w'' (Suc k) ''a'' 0)"
proof -
  have m: "maxSymlinks \<le> 41" by (simp add: maxSymlinks_def)
  have r: "readfile_symlinks demo_fs ''/w'' 41 ''loop'' 0" by (rule demo_readfile_symlinks)
  have t: "stat_symlinks demo_fs ''/w'' 41 ''loop'' 0" by (rule demo_stat_symlinks)
  have a: "fst (ReadFile demo_fs ''/w'' ''a'' 0) = Inr [1, 2, 3]"
    by (simp add: ReadFile_def maxSymlinks_def ReadFile_loop_numeral demo_fs_def demo_resolve
                  lookup_root_def)
  have b: "snd (fst (Stat demo_fs ''/w'' ''a'' 0)) = None"
    by (simp add: Stat_def maxSymlinks_def Stat_loop_numeral demo_fs_def demo_resolve
                  lookup_root_def)
  note L = symlink_loop_bound[of demo_fs "''/w''" "''loop''" 0]
  note A = symlink_loop_bound[of demo_fs "''/w''" "''a''" 0]
  have 1: "fst (ReadFile demo_fs ''/w'' ''loop'' 0) = Inl (PathError ''readfile'' ''loop'' ELOOP)"
    using L m r by blast
  have 2: "snd (fst (Stat demo_fs ''/w'' ''loop'' 0)) = Some (PathError ''stat'' ''loop'' ELOOP)"
    using L m t by blast
  have 3: "\<exists>k<maxSymlinks. readfile_symlinks demo_fs ''/w'' k ''a'' 0 \<and>
                    \<not> readfile_symlinks demo_fs ''/w'' (Suc k) ''a'' 0"
    using A a by blast
  have 4: "\<exists>k<maxSymlinks. stat_symlinks demo_fs ''/w'' k ''a'' 0 \<and>
                    \<not> stat_symlinks demo_fs ''/w'' (Suc k) ''a'' 0"
    using A b by blast
  from m r t a b 1 2 3 4 show ?thesis by blast
qed

section \<open>float64 arithmetic\<close>

text \<open>
  A \<open>float64\<close> is represented by the real number it denotes. Go evaluates each
  \<open>float64\<close> operation in IEEE 754 binary64 with rounding to nearest, ties to even:
  the result is the exact result rounded to 53 significant bits. \<open>float64_exponent x\<close>
  is the exponent of the binade of \<open>x\<close>, between \<open>-1022\<close> (which also takes the
  subnormal numbers) and \<open>1023\<close>, found by halving or doubling. Infinities and NaN are
  not represented; the numbers of \<open>Next\<close> stay below \<open>2 ^ 64\<close>.
\<close>

fun exp_up :: "nat \<Rightarrow> real \<Rightarrow> int" where
  "exp_up 0 x = 0"
| "exp_up (Suc n) x = (if 2 \<le> x then exp_up n (x / 2) + 1 else 0)"

fun exp_down :: "nat \<Rightarrow> real \<Rightarrow> int" where
  "exp_down 0 x = 0"
| "exp_down (Suc n) x = (if x < 1 then exp_down n (x * 2) - 1 else 0)"

definition float64_exponent :: "real \<Rightarrow> int" where
  "float64_exponent x = (if 1 \<le> \<bar>x\<bar> then exp_up 1023 \<bar>x\<bar> else exp_down 1022 \<bar>x\<bar>)"

definition pow2 :: "int \<Rightarrow> real" where
  "pow2 e = (if 0 \<le> e then 2 ^ nat e else 1 / 2 ^ nat (- e))"

definition round_half_even :: "real \<Rightarrow> int" where
  "round_half_even q =
     (let f = \<lfloor>q\<rfloor>; d = q - real_of_int f
      in if d < 1 / 2 then f else if 1 / 2 < d then f + 1 else if even f then f else f + 1)"

definition float64 :: "real \<Rightarrow> real" where
  "float64 x =
     (let u = pow2 (float64_exponent x - 52)
      in real_of_int (round_half_even (x / u)) * u)"















section \<open>gRPC status codes and Go errors\<close>

text \<open>
  The codes of \<open>google.golang.org/grpc/codes\<close> and the errors that the functions below
  tell apart: an error that carries a gRPC status, the two context errors, any other
  error, and an error wrapped by \<open>fmt.Errorf("...%w", err)\<close>.
\<close>

datatype code =
    OK | Canceled | Unknown | InvalidArgument | DeadlineExceeded | NotFound | AlreadyExists
  | PermissionDenied | ResourceExhausted | FailedPrecondition | Aborted | OutOfRange
  | Unimplemented | Internal | Unavailable | DataLoss | Unauthenticated

datatype go_error =
    GrpcStatus code string
  | ContextCanceled
  | ContextDeadlineExceeded
  | PlainError string
  | Wrapped string go_error

text \<open>
  \<open>status.FromError\<close> and \<open>status.FromContextError\<close> of grpc-go, reduced to the status
  code: \<open>FromError\<close> finds a gRPC status in the error or in what it wraps
  (\<open>errors.As\<close>) and otherwise answers \<open>Unknown\<close> with \<open>ok = false\<close>;
  \<open>FromContextError\<close> maps the context errors (\<open>errors.Is\<close>) to their codes and
  everything else to \<open>Unknown\<close>.
\<close>

fun grpc_status_of :: "go_error \<Rightarrow> code option" where
  "grpc_status_of (GrpcStatus c m) = Some c"
| "grpc_status_of (Wrapped m e) = grpc_status_of e"
| "grpc_status_of _ = None"

fun is_context_error :: "go_error \<Rightarrow> go_error \<Rightarrow> bool" where
  "is_context_error target (Wrapped m e) = is_context_error target e"
| "is_context_error target e = (e = target)"

definition FromError :: "go_error \<Rightarrow> code \<times> bool" where
  "FromError err = (case grpc_status_of err of Some c \<Rightarrow> (c, True) | None \<Rightarrow> (Unknown, False))"

definition FromContextError :: "go_error \<Rightarrow> code" where
  "FromContextError err =
     (if is_context_error ContextDeadlineExceeded err then DeadlineExceeded
      else if is_context_error ContextCanceled err then Canceled
      else Unknown)"

section \<open>reapi/retry/retry.go: exponential backoff\<close>

text \<open>
  \<open>time.Duration\<close> is a number of nanoseconds; \<open>started\<close> is \<open>None\<close> for the zero
  \<open>time.Time\<close>. \<open>Next\<close> takes the clock reading and the value of
  \<open>rand.Float64()\<close> as arguments. Each \<open>float64\<close> operation of \<open>Next\<close> rounds its
  result, one operation at a time as the compiler for amd64 does (the language allows a
  fused multiply-add elsewhere); the untyped constant \<open>0.4\<close> becomes the nearest
  \<open>float64\<close>; \<open>time.Duration(backoff)\<close> truncates towards zero.
\<close>

record ExponentialBackoff =
  started :: "int option"
  retries :: int
  delay :: int
  authRetry :: bool

definition zero_backoff :: ExponentialBackoff where
  "zero_backoff = \<lparr>started = None, retries = 0, delay = 0, authRetry = False\<rparr>"

definition retriableError :: "ExponentialBackoff \<Rightarrow> go_error \<Rightarrow> bool \<times> ExponentialBackoff" where
  "retriableError b err =
     (let (st, ok) = FromError err;
          st = (if \<not> ok then FromContextError err else st)
      in if st \<in> {ResourceExhausted, Internal, Unavailable, Aborted} then (True, b)
         else if st = Unknown then (ok, b)
         else if st \<in> {Unauthenticated, PermissionDenied}
              then (let retry = authRetry b in (\<not> retry, b\<lparr>authRetry := True\<rparr>))
         else (False, b))"

definition maxRetries :: int where "maxRetries = 10"
definition multiplier :: real where "multiplier = 2"
definition baseDelay :: int where "baseDelay = 200 * 1000000"
definition maxDelay :: real where "maxDelay = real_of_int (10 * 1000000000)"
definition backoffRange :: real where "backoffRange = float64 0.4"

definition go_trunc :: "real \<Rightarrow> int" where
  "go_trunc x = (if 0 \<le> x then \<lfloor>x\<rfloor> else \<lceil>x\<rceil>)"

definition Next ::
  "ExponentialBackoff \<Rightarrow> go_error option \<Rightarrow> int \<Rightarrow> real \<Rightarrow> (int \<times> go_error option) \<times> ExponentialBackoff" where
  "Next b err now rnd =
     (case err of
        None \<Rightarrow> ((0, None), b)
      | Some e \<Rightarrow>
          (let b = (if started b = None then b\<lparr>started := Some now\<rparr> else b);
               b = (if delay b = 0 then b\<lparr>delay := baseDelay\<rparr> else b);
               (r, b) = retriableError b e
           in if \<not> r then ((0, Some e), b)
              else if retries b \<ge> maxRetries
              then ((0, Some (Wrapped ''too many retries'' e)), b)
              else (let b = b\<lparr>retries := retries b + 1\<rparr>;
                        backoff = float64 (float64 (real_of_int (delay b)) * multiplier);
                        backoff = (if backoff > maxDelay then maxDelay else backoff);
                        backoff = float64 (backoff - float64 (float64 (backoff * backoffRange) * rnd));
                        b = b\<lparr>delay := go_trunc backoff\<rparr>;
                        b = (if delay b < baseDelay then b\<lparr>delay := baseDelay\<rparr> else b)
                    in ((delay b, Some e), b))))"


text \<open>
  The \<open>float64\<close> value that \<open>Next\<close> truncates, as a function of the stored delay, and
  the delay that the doubling and the cap give before the jitter.
\<close>

definition jittered :: "int \<Rightarrow> real \<Rightarrow> real" where
  "jittered d rnd =
     (let backoff = float64 (float64 (real_of_int d) * multiplier);
          backoff = (if backoff > maxDelay then maxDelay else backoff)
      in float64 (backoff - float64 (float64 (backoff * backoffRange) * rnd)))"


text \<open>The errors for which \<open>retriableError\<close> answers yes, given \<open>authRetry\<close>.\<close>

definition retry_allowed :: "ExponentialBackoff \<Rightarrow> go_error \<Rightarrow> bool" where
  "retry_allowed b e \<longleftrightarrow>
     (\<exists>c. grpc_status_of e = Some c \<and>
        (c \<in> {Aborted, Internal, ResourceExhausted, Unavailable, Unknown} \<or>
         c \<in> {Unauthenticated, PermissionDenied} \<and> \<not> authRetry b))"

lemma FromContextError_cases:
  "FromContextError e = DeadlineExceeded \<or> FromContextError e = Canceled \<or> FromContextError e = Unknown"
  by (simp add: FromContextError_def)

lemma retriableError_iff: "fst (retriableError b e) \<longleftrightarrow> retry_allowed b e"
proof (cases "grpc_status_of e")
  case None
  then show ?thesis
    using FromContextError_cases[of e]
    by (auto simp: retriableError_def retry_allowed_def FromError_def Let_def)
next
  case (Some c)
  then show ?thesis
    by (cases c) (auto simp: retriableError_def retry_allowed_def FromError_def Let_def)
qed

lemma retriableError_state:
  "retries (snd (retriableError b e)) = retries b \<and> delay (snd (retriableError b e)) = delay b"
  by (auto simp: retriableError_def Let_def split: prod.splits)

lemma retry_allowed_cong:
  "authRetry b' = authRetry b \<Longrightarrow> retry_allowed b' e = retry_allowed b e"
  by (simp add: retry_allowed_def)

lemma Next_unfold:
  "Next b (Some e) now rnd =
     (let b1 = (if started b = None then b\<lparr>started := Some now\<rparr> else b);
          b2 = (if delay b1 = 0 then b1\<lparr>delay := baseDelay\<rparr> else b1);
          b3 = snd (retriableError b2 e)
      in if \<not> retry_allowed b e then ((0, Some e), b3)
         else if retries b \<ge> maxRetries then ((0, Some (Wrapped ''too many retries'' e)), b3)
         else (let d = max baseDelay
                         (go_trunc (jittered (if delay b = 0 then baseDelay else delay b) rnd))
               in ((d, Some e), b3\<lparr>retries := retries b + 1, delay := d\<rparr>)))"
proof -
  define b1 where "b1 = (if started b = None then b\<lparr>started := Some now\<rparr> else b)"
  define b2 where "b2 = (if delay b1 = 0 then b1\<lparr>delay := baseDelay\<rparr> else b1)"
  define b3 where "b3 = snd (retriableError b2 e)"
  have a2: "authRetry b2 = authRetry b" by (simp add: b2_def b1_def)
  have r: "fst (retriableError b2 e) = retry_allowed b e"
    using retriableError_iff[of b2 e] retry_allowed_cong[OF a2] by simp
  have d2: "delay b2 = (if delay b = 0 then baseDelay else delay b)"
    by (simp add: b2_def b1_def)
  have r2: "retries b2 = retries b" by (simp add: b2_def b1_def)
  have s3: "retries b3 = retries b" "delay b3 = delay b2"
    using retriableError_state[of b2 e] r2 by (simp_all add: b3_def)
  have "Next b (Some e) now rnd =
      (if \<not> fst (retriableError b2 e) then ((0, Some e), b3)
       else if retries b3 \<ge> maxRetries then ((0, Some (Wrapped ''too many retries'' e)), b3)
       else (let t = go_trunc (jittered (delay b3) rnd);
                 d = (if t < baseDelay then baseDelay else t)
             in ((d, Some e), b3\<lparr>retries := retries b3 + 1, delay := d\<rparr>)))"
    unfolding Next_def b1_def[symmetric] b2_def[symmetric] Let_def option.case jittered_def
    by (cases "retriableError b2 e") (simp add: b3_def b1_def[symmetric] b2_def[symmetric])
  also have "\<dots> =
      (if \<not> retry_allowed b e then ((0, Some e), b3)
         else if retries b \<ge> maxRetries then ((0, Some (Wrapped ''too many retries'' e)), b3)
         else (let d = max baseDelay
                         (go_trunc (jittered (if delay b = 0 then baseDelay else delay b) rnd))
               in ((d, Some e), b3\<lparr>retries := retries b + 1, delay := d\<rparr>)))"
    unfolding r s3 d2 by (simp add: Let_def max_def)
  finally show ?thesis
    unfolding Let_def b3_def b2_def b1_def .
qed













section \<open>reapi/retry/retry.go: Do\<close>

text \<open>
  What \<open>Do\<close> meets while it runs: \<open>call_f\<close> is the closure \<open>f\<close> over a state \<open>'s\<close>; the k-th
  iteration of the loop reads the clock (\<open>now_at k\<close>), draws \<open>rand.Float64()\<close>
  (\<open>rnd_at k\<close>) and, when it waits, either the timer fires (\<open>ctx_done k = None\<close>) or the
  context is done first with a cause.
\<close>

record 's retry_env =
  call_f :: "'s \<Rightarrow> go_error option \<times> 's"
  now_at :: "nat \<Rightarrow> int"
  rnd_at :: "nat \<Rightarrow> real"
  ctx_done :: "nat \<Rightarrow> go_error option"

lemma Next_continues:
  assumes "fst (fst (Next b err now rnd)) \<noteq> 0"
  shows "retries b < maxRetries \<and> retries (snd (Next b err now rnd)) = retries b + 1"
proof (cases err)
  case None
  with assms show ?thesis by (simp add: Next_def)
next
  case (Some e)
  with assms show ?thesis
    unfolding Some Next_unfold
    by (auto simp: Let_def retriableError_state split: if_splits)
qed

function Do_loop :: "'s retry_env \<Rightarrow> ExponentialBackoff \<Rightarrow> nat \<Rightarrow> 's \<Rightarrow> go_error option \<times> 's" where
  "Do_loop env backoff k s =
     (let err = fst (call_f env s);
          s' = snd (call_f env s);
          r = Next backoff err (now_at env k) (rnd_at env k)
      in if fst (fst r) = 0 then (snd (fst r), s')
         else (case ctx_done env k of
                 Some cause \<Rightarrow> (Some cause, s')
               | None \<Rightarrow> Do_loop env (snd r) (Suc k) s'))"
  by pat_completeness auto
termination
proof (relation "measure (\<lambda>(env, backoff, k, s). nat (maxRetries - retries backoff))")
  show "wf (measure (\<lambda>(env, backoff, k, s). nat (maxRetries - retries backoff)))" by simp
next
  fix env :: "'s retry_env" and backoff k s x xa xb
  assume "x = fst (call_f env s)" "xb = Next backoff x (now_at env k) (rnd_at env k)"
         "fst (fst xb) \<noteq> 0"
  then show "((env, snd xb, Suc k, xa), env, backoff, k, s)
      \<in> measure (\<lambda>(env, backoff, k, s). nat (maxRetries - retries backoff))"
    using Next_continues[of backoff x "now_at env k" "rnd_at env k"] by simp
qed

declare Do_loop.simps [simp del]

definition Do :: "'s retry_env \<Rightarrow> 's \<Rightarrow> go_error option \<times> 's" where
  "Do env s = Do_loop env zero_backoff 0 s"


definition is_auth_error :: "go_error \<Rightarrow> bool" where
  "is_auth_error e \<longleftrightarrow> grpc_status_of e \<in> {Some Unauthenticated, Some PermissionDenied}"

text \<open>A closure that counts its calls, as the closures of the tests do.\<close>

definition counting :: "('s \<Rightarrow> go_error option \<times> 's) \<Rightarrow> 's \<times> nat \<Rightarrow> go_error option \<times> ('s \<times> nat)" where
  "counting g = (\<lambda>(s, n). (fst (g s), (snd (g s), Suc n)))"

lemma counting_apply: "counting g (s, n) = (fst (g s), (snd (g s), Suc n))"
  by (simp add: counting_def)

lemma retriableError_auth:
  "is_auth_error e \<Longrightarrow> authRetry (snd (retriableError b e))"
  by (auto simp: is_auth_error_def retriableError_def FromError_def Let_def)

lemma Next_auth_first:
  assumes "is_auth_error e" "\<not> authRetry b" "retries b < maxRetries"
  shows "fst (fst (Next b (Some e) now rnd)) \<noteq> 0"
    and "authRetry (snd (Next b (Some e) now rnd))"
proof -
  have ra: "retry_allowed b e"
    using assms(1,2) by (auto simp: retry_allowed_def is_auth_error_def)
  have "baseDelay \<le> max baseDelay x" for x by simp
  then have nz: "max baseDelay x \<noteq> 0" for x
    by (metis baseDelay_def less_le_not_le mult_pos_pos zero_less_numeral)
  show "fst (fst (Next b (Some e) now rnd)) \<noteq> 0"
    unfolding Next_unfold using ra assms(3) nz by (simp add: Let_def)
  show "authRetry (snd (Next b (Some e) now rnd))"
    unfolding Next_unfold using ra assms(3) retriableError_auth[OF assms(1)]
    by (simp add: Let_def)
qed

lemma Next_auth_second:
  assumes "is_auth_error e" "authRetry b"
  shows "fst (Next b (Some e) now rnd) = (0, Some e)"
proof -
  have "\<not> retry_allowed b e"
    using assms by (auto simp: retry_allowed_def is_auth_error_def)
  then show ?thesis unfolding Next_unfold by (simp add: Let_def)
qed

text \<open>
  C5 (as stated, refuted): the closure always fails with \<open>PermissionDenied\<close>, and the
  context is canceled while \<open>Do\<close> waits after the first call. \<open>Do\<close> takes the branch
  \<open>case <-ctx.Done()\<close>: it has called the closure once and returns the cause of the
  context, not the auth error.
\<close>

theorem Do_auth_error_ctx_done_counterexample:
  "Do \<lparr>call_f = counting (\<lambda>u. (Some (GrpcStatus PermissionDenied ''permission denied''), u)),
       now_at = (\<lambda>k. 0), rnd_at = (\<lambda>k. 1 / 2), ctx_done = (\<lambda>k. Some ContextCanceled)\<rparr> ((), 0)
     = (Some ContextCanceled, ((), 1))"
proof -
  have a: "is_auth_error (GrpcStatus PermissionDenied ''permission denied'')"
    by (simp add: is_auth_error_def)
  have z: "\<not> authRetry zero_backoff" "retries zero_backoff < maxRetries"
    by (simp_all add: zero_backoff_def maxRetries_def)
  have n: "fst (fst (Next zero_backoff (Some (GrpcStatus PermissionDenied ''permission denied''))
                   0 (1 / 2))) \<noteq> 0"
    by (rule Next_auth_first(1)[OF a z])
  show ?thesis
    unfolding Do_def by (subst Do_loop.simps) (simp add: counting_apply n Let_def)
qed

text \<open>
  C5 (amended): let every call of the closure fail with an error whose gRPC code is
  Unauthenticated or PermissionDenied. Then \<open>Do\<close> calls it at most twice. When the
  context is not done during the one wait, \<open>Do\<close> calls it exactly twice and returns
  the error of the second call, an auth error; when the context is done during that
  wait, \<open>Do\<close> has called it once and returns the cause of the context.
\<close>

theorem Do_auth_error_retried_once:
  assumes "\<forall>s. \<exists>e. fst (g s) = Some e \<and> is_auth_error e"
  shows
    "snd (snd (Do (env\<lparr>call_f := counting g\<rparr>) (s, 0))) \<le> 2 \<and>
     (ctx_done env 0 = None \<longrightarrow>
        Do (env\<lparr>call_f := counting g\<rparr>) (s, 0) = (fst (g (snd (g s))), (snd (g (snd (g s))), 2)) \<and>
        (\<exists>e. fst (Do (env\<lparr>call_f := counting g\<rparr>) (s, 0)) = Some e \<and> is_auth_error e)) \<and>
     (\<forall>cause. ctx_done env 0 = Some cause \<longrightarrow>
        Do (env\<lparr>call_f := counting g\<rparr>) (s, 0) = (Some cause, (snd (g s), 1)))"
proof -
  let ?env = "env\<lparr>call_f := counting g\<rparr>"
  obtain e1 where e1: "fst (g s) = Some e1" "is_auth_error e1" using assms by blast
  obtain e2 where e2: "fst (g (snd (g s))) = Some e2" "is_auth_error e2" using assms by blast
  let ?r1 = "Next zero_backoff (Some e1) (now_at env 0) (rnd_at env 0)"
  have z: "\<not> authRetry zero_backoff" "retries zero_backoff < maxRetries"
    by (simp_all add: zero_backoff_def maxRetries_def)
  have n1: "fst (fst ?r1) \<noteq> 0" and a1: "authRetry (snd ?r1)"
    using Next_auth_first[OF e1(2) z] by simp_all
  have n2: "fst (Next (snd ?r1) (Some e2) (now_at env (Suc 0)) (rnd_at env (Suc 0))) = (0, Some e2)"
    by (rule Next_auth_second[OF e2(2) a1])
  have second: "Do_loop ?env (snd ?r1) (Suc 0) (snd (g s), Suc 0) = (Some e2, (snd (g (snd (g s))), 2))"
    by (subst Do_loop.simps) (simp add: counting_apply e2 n2 Let_def)
  have first: "Do ?env (s, 0) =
      (case ctx_done env 0 of Some cause \<Rightarrow> (Some cause, (snd (g s), Suc 0))
       | None \<Rightarrow> (Some e2, (snd (g (snd (g s))), 2)))"
    unfolding Do_def
    by (subst Do_loop.simps) (simp add: counting_apply e1 n1 Let_def second split: option.splits)
  show ?thesis
    unfolding first using e2 by (auto split: option.splits)
qed

theorem Do_auth_error_witness:
  "is_auth_error (GrpcStatus PermissionDenied ''permission denied'') \<and>
   Do \<lparr>call_f = counting (\<lambda>u. (Some (GrpcStatus PermissionDenied ''permission denied''), u)),
       now_at = (\<lambda>k. 0), rnd_at = (\<lambda>k. 1 / 2), ctx_done = (\<lambda>k. None)\<rparr> ((), 0)
     = (Some (GrpcStatus PermissionDenied ''permission denied''), ((), 2))"
proof -
  have a: "is_auth_error (GrpcStatus PermissionDenied ''permission denied'')"
    by (simp add: is_auth_error_def)
  then have h: "\<forall>s::unit. \<exists>e. fst ((\<lambda>u. (Some (GrpcStatus PermissionDenied ''permission denied''), u)) s) = Some e
                  \<and> is_auth_error e"
    by simp
  show ?thesis
    using a Do_auth_error_retried_once[OF h,
        of "\<lparr>call_f = undefined, now_at = (\<lambda>k. 0), rnd_at = (\<lambda>k. 1 / 2), ctx_done = (\<lambda>k. None)\<rparr>" "()"]
    by simp
qed

section \<open>build/cache.go: GetActionResult\<close>

text \<open>
  \<open>CmdOutcome\<close> holds what \<open>GetActionResult\<close> writes into the \<open>execute.Cmd\<close>: the
  action digest, the action result with its cached flag, and the bytes written to the
  stdout and stderr writers. The calls that leave the file are parameters:
  \<open>cmd_Digest\<close> is the outcome of \<open>c.sema.Do\<close> around \<open>cmd.Digest\<close>. A \<open>nil\<close>
  cache is \<open>None\<close>, and so is a \<open>nil\<close> store or digest message
  (\<open>digest.FromProto(nil)\<close> is the zero digest).
\<close>

record Digest =
  Hash :: string
  SizeBytes :: int

record ActionResult =
  StdoutRaw :: "byte list"
  StdoutDigest :: "Digest option"
  StderrRaw :: "byte list"
  StderrDigest :: "Digest option"

definition FromProto :: "Digest option \<Rightarrow> Digest" where
  "FromProto d = (case d of None \<Rightarrow> \<lparr>Hash = [], SizeBytes = 0\<rparr> | Some x \<Rightarrow> x)"

record CmdOutcome =
  actionDigest :: "Digest option"
  actionResult :: "(ActionResult \<times> bool) option"
  stdoutWriter :: "byte list"
  stderrWriter :: "byte list"

record 'st Cache =
  store :: "'st option"
  enableRead :: bool

record cache_calls =
  cmd_Digest :: "go_error + Digest"
  store_GetActionResult :: "Digest \<Rightarrow> go_error + ActionResult"
  store_GetContent :: "Digest \<Rightarrow> string \<Rightarrow> go_error + byte list"
  cmd_RecordOutputs :: "CmdOutcome \<Rightarrow> go_error option"

definition setActionResultStdout ::
  "cache_calls \<Rightarrow> CmdOutcome \<Rightarrow> ActionResult \<Rightarrow> go_error option \<times> CmdOutcome" where
  "setActionResultStdout env cmd' result =
     (if length (StdoutRaw result) > 0
      then (None, cmd'\<lparr>stdoutWriter := stdoutWriter cmd' @ StdoutRaw result\<rparr>)
      else (let d = FromProto (StdoutDigest result)
            in if SizeBytes d = 0 then (None, cmd')
               else (case store_GetContent env d ''stdout'' of
                       Inl err \<Rightarrow> (Some err, cmd')
                     | Inr buf \<Rightarrow> (None, cmd'\<lparr>stdoutWriter := stdoutWriter cmd' @ buf\<rparr>))))"

definition setActionResultStderr ::
  "cache_calls \<Rightarrow> CmdOutcome \<Rightarrow> ActionResult \<Rightarrow> go_error option \<times> CmdOutcome" where
  "setActionResultStderr env cmd' result =
     (if length (StderrRaw result) > 0
      then (None, cmd'\<lparr>stderrWriter := stderrWriter cmd' @ StderrRaw result\<rparr>)
      else (let d = FromProto (StderrDigest result)
            in if SizeBytes d = 0 then (None, cmd')
               else (case store_GetContent env d ''stderr'' of
                       Inl err \<Rightarrow> (Some err, cmd')
                     | Inr buf \<Rightarrow> (None, cmd'\<lparr>stderrWriter := stderrWriter cmd' @ buf\<rparr>))))"

definition GetActionResult ::
  "cache_calls \<Rightarrow> 'st Cache option \<Rightarrow> CmdOutcome \<Rightarrow> go_error option \<times> CmdOutcome" where
  "GetActionResult env c cmd' =
     (case c of
        None \<Rightarrow> (Some (GrpcStatus NotFound ''cache is not configured''), cmd')
      | Some c' \<Rightarrow>
          if store c' = None then (Some (GrpcStatus NotFound ''cache is not configured''), cmd')
          else if \<not> enableRead c' then (Some (GrpcStatus NotFound ''cache disable raed''), cmd')
          else (case cmd_Digest env of
                  Inl err \<Rightarrow> (Some err, cmd')
                | Inr d \<Rightarrow>
                    (case store_GetActionResult env d of
                       Inl err \<Rightarrow> (Some err, cmd')
                     | Inr result \<Rightarrow>
                         (let cmd1 = cmd'\<lparr>actionDigest := Some d,
                                          actionResult := Some (result, True)\<rparr>
                          in case setActionResultStdout env cmd1 result of
                               (Some err, cmd2) \<Rightarrow> (Some err, cmd2)
                             | (None, cmd2) \<Rightarrow>
                                 (case setActionResultStderr env cmd2 result of
                                    (Some err, cmd3) \<Rightarrow> (Some err, cmd3)
                                  | (None, cmd3) \<Rightarrow>
                                      (case cmd_RecordOutputs env cmd3 of
                                         Some err \<Rightarrow> (Some err, cmd3)
                                       | None \<Rightarrow> (None, cmd3)))))))"

text \<open>A cache hit: the cache is readable, the digest is computed, the store has a result.\<close>

definition cache_hit :: "cache_calls \<Rightarrow> 'st Cache option \<Rightarrow> Digest \<Rightarrow> ActionResult \<Rightarrow> bool" where
  "cache_hit env c d result \<longleftrightarrow>
     (case c of None \<Rightarrow> False | Some c' \<Rightarrow> store c' \<noteq> None \<and> enableRead c') \<and>
     cmd_Digest env = Inr d \<and> store_GetActionResult env d = Inr result"

definition demo_result :: ActionResult where
  "demo_result = \<lparr>StdoutRaw = [], StdoutDigest = Some \<lparr>Hash = ''ab'', SizeBytes = 5\<rparr>,
                   StderrRaw = [], StderrDigest = Some \<lparr>Hash = ''cd'', SizeBytes = 7\<rparr>\<rparr>"

text \<open>
  Calls for evaluation: the store has \<open>demo_result\<close> for every digest; fetching the
  content named \<open>failing\<close> fails with \<open>Unavailable\<close>, and recording the outputs fails
  with \<open>Internal\<close> when \<open>failing\<close> is \<open>''outputs''\<close>.
\<close>

definition demo_calls :: "string \<Rightarrow> cache_calls" where
  "demo_calls failing =
     \<lparr>cmd_Digest = Inr \<lparr>Hash = ''c0'', SizeBytes = 142\<rparr>,
      store_GetActionResult = (\<lambda>d. Inr demo_result),
      store_GetContent = (\<lambda>d f. if f = failing then Inl (GrpcStatus Unavailable ''connection reset'')
                                 else Inr [1, 2]),
      cmd_RecordOutputs = (\<lambda>cmd'. if failing = ''outputs''
                                  then Some (GrpcStatus Internal ''no such blob'') else None)\<rparr>"

definition demo_cache :: "unit Cache option" where
  "demo_cache = Some \<lparr>store = Some (), enableRead = True\<rparr>"

definition demo_cmd :: CmdOutcome where
  "demo_cmd = \<lparr>actionDigest = None, actionResult = None, stdoutWriter = [], stderrWriter = []\<rparr>"

lemma GetActionResult_hit:
  assumes "cache_hit env c d result"
  shows "fst (GetActionResult env c cmd') =
     (let cmd1 = cmd'\<lparr>actionDigest := Some d, actionResult := Some (result, True)\<rparr>;
          r1 = setActionResultStdout env cmd1 result;
          r2 = setActionResultStderr env (snd r1) result
      in if fst r1 \<noteq> None then fst r1
         else if fst r2 \<noteq> None then fst r2
         else cmd_RecordOutputs env (snd r2))"
  using assms
  by (auto simp: cache_hit_def GetActionResult_def Let_def split: option.splits prod.splits sum.splits)

lemma setActionResultStdout_fails:
  "StdoutRaw result = [] \<Longrightarrow> SizeBytes (FromProto (StdoutDigest result)) \<noteq> 0 \<Longrightarrow>
   store_GetContent env (FromProto (StdoutDigest result)) ''stdout'' = Inl err \<Longrightarrow>
   fst (setActionResultStdout env cmd' result) = Some err"
  by (simp add: setActionResultStdout_def)

lemma setActionResultStderr_fails:
  "StderrRaw result = [] \<Longrightarrow> SizeBytes (FromProto (StderrDigest result)) \<noteq> 0 \<Longrightarrow>
   store_GetContent env (FromProto (StderrDigest result)) ''stderr'' = Inl err \<Longrightarrow>
   fst (setActionResultStderr env cmd' result) = Some err"
  by (simp add: setActionResultStderr_def)

text \<open>
  C6 (as stated, refuted): after a hit, a failed fetch of the stdout content is claimed
  to end in a NotFound error. Here the fetch fails with Unavailable, and
  \<open>GetActionResult\<close> returns that error.
\<close>

theorem GetActionResult_subfetch_counterexample:
  "cache_hit (demo_calls ''stdout'') demo_cache \<lparr>Hash = ''c0'', SizeBytes = 142\<rparr> demo_result \<and>
   store_GetContent (demo_calls ''stdout'') (FromProto (StdoutDigest demo_result)) ''stdout''
     = Inl (GrpcStatus Unavailable ''connection reset'') \<and>
   fst (GetActionResult (demo_calls ''stdout'') demo_cache demo_cmd)
     = Some (GrpcStatus Unavailable ''connection reset'')"
  by (simp add: cache_hit_def GetActionResult_def setActionResultStdout_def demo_calls_def
                demo_result_def demo_cmd_def demo_cache_def FromProto_def)

text \<open>
  C6 (amended): after a hit, \<open>GetActionResult\<close> returns the error of the first step
  that fails, as it is: the error of fetching the stdout content, else the error of
  fetching the stderr content, else the result of \<open>RecordOutputs\<close> (an error or
  none).
\<close>

theorem GetActionResult_returns_subfetch_error:
  assumes "cache_hit env c d result"
  shows
    "(StdoutRaw result = [] \<and> SizeBytes (FromProto (StdoutDigest result)) \<noteq> 0 \<and>
      store_GetContent env (FromProto (StdoutDigest result)) ''stdout'' = Inl err
      \<longrightarrow> fst (GetActionResult env c cmd') = Some err) \<and>
     (fst (setActionResultStdout env
             (cmd'\<lparr>actionDigest := Some d, actionResult := Some (result, True)\<rparr>) result) = None \<and>
      StderrRaw result = [] \<and> SizeBytes (FromProto (StderrDigest result)) \<noteq> 0 \<and>
      store_GetContent env (FromProto (StderrDigest result)) ''stderr'' = Inl err
      \<longrightarrow> fst (GetActionResult env c cmd') = Some err) \<and>
     (fst (setActionResultStdout env
             (cmd'\<lparr>actionDigest := Some d, actionResult := Some (result, True)\<rparr>) result) = None \<and>
      fst (setActionResultStderr env
             (snd (setActionResultStdout env
                (cmd'\<lparr>actionDigest := Some d, actionResult := Some (result, True)\<rparr>) result))
             result) = None
      \<longrightarrow> fst (GetActionResult env c cmd') =
            cmd_RecordOutputs env
              (snd (setActionResultStderr env
                 (snd (setActionResultStdout env
                    (cmd'\<lparr>actionDigest := Some d, actionResult := Some (result, True)\<rparr>) result))
                 result)))"
proof (intro conjI impI)
  assume a: "StdoutRaw result = [] \<and> SizeBytes (FromProto (StdoutDigest result)) \<noteq> 0 \<and>
      store_GetContent env (FromProto (StdoutDigest result)) ''stdout'' = Inl err"
  then have "\<And>cmd'. fst (setActionResultStdout env cmd' result) = Some err"
    by (simp add: setActionResultStdout_fails)
  then show "fst (GetActionResult env c cmd') = Some err"
    unfolding GetActionResult_hit[OF assms] by (simp add: Let_def)
next
  assume a: "fst (setActionResultStdout env
             (cmd'\<lparr>actionDigest := Some d, actionResult := Some (result, True)\<rparr>) result) = None \<and>
      StderrRaw result = [] \<and> SizeBytes (FromProto (StderrDigest result)) \<noteq> 0 \<and>
      store_GetContent env (FromProto (StderrDigest result)) ''stderr'' = Inl err"
  then have "\<And>cmd'. fst (setActionResultStderr env cmd' result) = Some err"
    by (simp add: setActionResultStderr_fails)
  with a show "fst (GetActionResult env c cmd') = Some err"
    unfolding GetActionResult_hit[OF assms] by (simp add: Let_def)
next
  assume a: "fst (setActionResultStdout env
             (cmd'\<lparr>actionDigest := Some d, actionResult := Some (result, True)\<rparr>) result) = None \<and>
      fst (setActionResultStderr env
             (snd (setActionResultStdout env
                (cmd'\<lparr>actionDigest := Some d, actionResult := Some (result, True)\<rparr>) result))
             result) = None"
  then show "fst (GetActionResult env c cmd') =
            cmd_RecordOutputs env
              (snd (setActionResultStderr env
                 (snd (setActionResultStdout env
                    (cmd'\<lparr>actionDigest := Some d, actionResult := Some (result, True)\<rparr>) result))
                 result))"
    unfolding GetActionResult_hit[OF assms] by (simp add: Let_def)
qed

lemma demo_hit: "cache_hit (demo_calls f) demo_cache \<lparr>Hash = ''c0'', SizeBytes = 142\<rparr> demo_result"
  by (simp add: cache_hit_def demo_calls_def demo_cache_def)

theorem GetActionResult_returns_subfetch_error_witness:
  "cache_hit (demo_calls ''stdout'') demo_cache \<lparr>Hash = ''c0'', SizeBytes = 142\<rparr> demo_result \<and>
   fst (GetActionResult (demo_calls ''stdout'') demo_cache demo_cmd)
     = Some (GrpcStatus Unavailable ''connection reset'') \<and>
   cache_hit (demo_calls ''stderr'') demo_cache \<lparr>Hash = ''c0'', SizeBytes = 142\<rparr> demo_result \<and>
   fst (GetActionResult (demo_calls ''stderr'') demo_cache demo_cmd)
     = Some (GrpcStatus Unavailable ''connection reset'') \<and>
   cache_hit (demo_calls ''outputs'') demo_cache \<lparr>Hash = ''c0'', SizeBytes = 142\<rparr> demo_result \<and>
   fst (GetActionResult (demo_calls ''outputs'') demo_cache demo_cmd)
     = Some (GrpcStatus Internal ''no such blob'')"
proof -
  note T = GetActionResult_returns_subfetch_error
  have 1: "fst (GetActionResult (demo_calls ''stdout'') demo_cache demo_cmd)
     = Some (GrpcStatus Unavailable ''connection reset'')"
    using T[OF demo_hit[of "''stdout''"], of "GrpcStatus Unavailable ''connection reset''" demo_cmd]
    by (simp add: demo_calls_def demo_result_def FromProto_def)
  have 2: "fst (GetActionResult (demo_calls ''stderr'') demo_cache demo_cmd)
     = Some (GrpcStatus Unavailable ''connection reset'')"
    using T[OF demo_hit[of "''stderr''"], of "GrpcStatus Unavailable ''connection reset''" demo_cmd]
    by (simp add: demo_calls_def demo_result_def FromProto_def setActionResultStdout_def)
  have 3: "fst (GetActionResult (demo_calls ''outputs'') demo_cache demo_cmd)
     = Some (GrpcStatus Internal ''no such blob'')"
    using T[OF demo_hit[of "''outputs''"], of undefined demo_cmd]
    by (simp add: demo_calls_def demo_result_def FromProto_def setActionResultStdout_def
                  setActionResultStderr_def)
  show ?thesis using 1 2 3 demo_hit by simp
qed

section \<open>build/cache.go: the edge hash of a step manifest\<close>

text \<open>
  \<open>calculateEdgeHash\<close> writes into a SHA-256 hash (\<open>crypto/sha256\<close>) and returns its
  sum. The hash function is the parameter \<open>sha\<close>; the state of the hash is the bytes
  written so far. \<open>edge_stream\<close> is the whole of what is written.
\<close>

definition unitSeparator :: string where
  "unitSeparator = [CHR 0x1F]"

text \<open>\<open>io.WriteString(h, s)\<close> appends to the bytes that the hash has been given.\<close>

definition WriteString :: "string \<Rightarrow> string \<Rightarrow> string" where
  "WriteString h s = h @ s"

fun write_names :: "string \<Rightarrow> string list \<Rightarrow> string" where
  "write_names h [] = h"
| "write_names h (fname # rest) =
     write_names (WriteString (WriteString h fname) unitSeparator) rest"

definition calculateEdgeHash :: "(string \<Rightarrow> 'h) \<Rightarrow> string list \<Rightarrow> string list \<Rightarrow> 'h" where
  "calculateEdgeHash sha inputs outputs =
     (let h = [];
          h = write_names h inputs;
          h = WriteString h unitSeparator;
          h = write_names h outputs
      in sha h)"

definition edge_stream :: "string list \<Rightarrow> string list \<Rightarrow> string" where
  "edge_stream inputs outputs =
     concat (map (\<lambda>f. f @ unitSeparator) inputs) @ unitSeparator
     @ concat (map (\<lambda>f. f @ unitSeparator) outputs)"

definition plain_name :: "string \<Rightarrow> bool" where
  "plain_name f \<longleftrightarrow> f \<noteq> [] \<and> CHR 0x1F \<notin> set f"

lemma write_names_concat:
  "write_names h fs = h @ concat (map (\<lambda>f. f @ unitSeparator) fs)"
  by (induction fs arbitrary: h) (simp_all add: WriteString_def)

lemma calculateEdgeHash_stream:
  "calculateEdgeHash sha inputs outputs = sha (edge_stream inputs outputs)"
  by (simp add: calculateEdgeHash_def edge_stream_def write_names_concat WriteString_def)

lemma split_at_separator:
  assumes "c \<notin> set f" "c \<notin> set g" "f @ c # r = g @ c # t"
  shows "f = g \<and> r = t"
  using assms
proof (induction f arbitrary: g)
  case Nil
  then show ?case by (cases g) auto
next
  case (Cons a f)
  then show ?case by (cases g) auto
qed

lemma enc_inj:
  assumes "\<forall>f \<in> set fs. CHR 0x1F \<notin> set f" "\<forall>f \<in> set gs. CHR 0x1F \<notin> set f"
    "concat (map (\<lambda>f. f @ unitSeparator) fs) = concat (map (\<lambda>f. f @ unitSeparator) gs)"
  shows "fs = gs"
  using assms
proof (induction fs arbitrary: gs)
  case Nil
  then show ?case by (cases gs) (simp_all add: unitSeparator_def)
next
  case (Cons f fs)
  show ?case
  proof (cases gs)
    case Nil
    with Cons.prems(3) show ?thesis by (simp add: unitSeparator_def)
  next
    case (Cons g gs')
    have eq: "f @ CHR 0x1F # concat (map (\<lambda>f. f @ unitSeparator) fs)
              = g @ CHR 0x1F # concat (map (\<lambda>f. f @ unitSeparator) gs')"
      using Cons.prems(3) Cons by (simp add: unitSeparator_def)
    have pf: "CHR 0x1F \<notin> set f" using Cons.prems(1) by simp
    have pg: "CHR 0x1F \<notin> set g" using Cons.prems(2) Cons by simp
    from split_at_separator[OF pf pg eq] have
      fg: "f = g" and
      rest: "concat (map (\<lambda>f. f @ unitSeparator) fs) = concat (map (\<lambda>f. f @ unitSeparator) gs')"
      by simp_all
    have 1: "\<forall>f \<in> set fs. CHR 0x1F \<notin> set f" using Cons.prems(1) by simp
    have 2: "\<forall>f \<in> set gs'. CHR 0x1F \<notin> set f" using Cons.prems(2) Cons by simp
    have "fs = gs'" by (rule Cons.IH[OF 1 2 rest])
    with fg Cons show ?thesis by simp
  qed
qed

lemma enc_sep_inj:
  assumes "\<forall>f \<in> set fs. plain_name f" "\<forall>f \<in> set gs. plain_name f"
    "concat (map (\<lambda>f. f @ unitSeparator) fs) @ CHR 0x1F # r
     = concat (map (\<lambda>f. f @ unitSeparator) gs) @ CHR 0x1F # t"
  shows "fs = gs \<and> r = t"
  using assms
proof (induction fs arbitrary: gs)
  case Nil
  show ?case
  proof (cases gs)
    case Nil
    with Nil.prems show ?thesis by simp
  next
    case (Cons g gs')
    then have "plain_name g" using Nil.prems by simp
    then obtain c g' where "g = c # g'" "c \<noteq> CHR 0x1F"
      by (cases g) (auto simp: plain_name_def)
    with Nil.prems Cons show ?thesis by simp
  qed
next
  case (Cons f fs)
  show ?case
  proof (cases gs)
    case Nil
    have "plain_name f" using Cons.prems by simp
    then obtain c f' where "f = c # f'" "c \<noteq> CHR 0x1F"
      by (cases f) (auto simp: plain_name_def)
    with Cons.prems Nil show ?thesis by simp
  next
    case (Cons g gs')
    have pf: "CHR 0x1F \<notin> set f" "CHR 0x1F \<notin> set g"
      using Cons.prems Cons by (auto simp: plain_name_def)
    from Cons.prems(3) Cons have
      "f @ CHR 0x1F # (concat (map (\<lambda>f. f @ unitSeparator) fs) @ CHR 0x1F # r)
       = g @ CHR 0x1F # (concat (map (\<lambda>f. f @ unitSeparator) gs') @ CHR 0x1F # t)"
      by (simp add: unitSeparator_def)
    from split_at_separator[OF pf this] have
      fg: "f = g" and
      rest: "concat (map (\<lambda>f. f @ unitSeparator) fs) @ CHR 0x1F # r
             = concat (map (\<lambda>f. f @ unitSeparator) gs') @ CHR 0x1F # t"
      by simp_all
    have "fs = gs' \<and> r = t"
      using Cons.IH[of gs', OF _ _ rest] Cons.prems Cons by simp
    with fg Cons show ?thesis by simp
  qed
qed

lemma edge_stream_inj:
  assumes "\<forall>f \<in> set (inputs @ outputs @ inputs' @ outputs'). plain_name f"
    and "edge_stream inputs outputs = edge_stream inputs' outputs'"
  shows "inputs = inputs' \<and> outputs = outputs'"
proof -
  have a: "\<forall>f \<in> set inputs. plain_name f" "\<forall>f \<in> set inputs'. plain_name f"
    and b: "\<forall>f \<in> set outputs. CHR 0x1F \<notin> set f" "\<forall>f \<in> set outputs'. CHR 0x1F \<notin> set f"
    using assms(1) by (auto simp: plain_name_def)
  from assms(2) have
    "concat (map (\<lambda>f. f @ unitSeparator) inputs) @ CHR 0x1F # concat (map (\<lambda>f. f @ unitSeparator) outputs)
     = concat (map (\<lambda>f. f @ unitSeparator) inputs') @ CHR 0x1F # concat (map (\<lambda>f. f @ unitSeparator) outputs')"
    by (simp add: edge_stream_def unitSeparator_def)
  from enc_sep_inj[OF a this] have i: "inputs = inputs'"
    and "concat (map (\<lambda>f. f @ unitSeparator) outputs) = concat (map (\<lambda>f. f @ unitSeparator) outputs')"
    by simp_all
  from enc_inj[OF b this(2)] i show ?thesis by simp
qed

text \<open>
  C8 (as stated, refuted): permuted input lists are claimed to hash equal. The lists
  below are permutations of each other, and the bytes handed to the hash differ (the
  function \<open>\<lambda>bytes. bytes\<close> shows them).
\<close>

theorem calculateEdgeHash_permutation_counterexample:
  "mset [''a.cc'', ''b.h''] = mset [''b.h'', ''a.cc''] \<and>
   calculateEdgeHash (\<lambda>bytes. bytes) [''a.cc'', ''b.h''] [''a.o'']
     = ''a.cc'' @ [CHR 0x1F] @ ''b.h'' @ [CHR 0x1F, CHR 0x1F] @ ''a.o'' @ [CHR 0x1F] \<and>
   calculateEdgeHash (\<lambda>bytes. bytes) [''b.h'', ''a.cc''] [''a.o'']
     = ''b.h'' @ [CHR 0x1F] @ ''a.cc'' @ [CHR 0x1F, CHR 0x1F] @ ''a.o'' @ [CHR 0x1F] \<and>
   calculateEdgeHash (\<lambda>bytes. bytes) [''a.cc'', ''b.h''] [''a.o'']
     \<noteq> calculateEdgeHash (\<lambda>bytes. bytes) [''b.h'', ''a.cc''] [''a.o'']"
  by (simp add: calculateEdgeHash_def WriteString_def unitSeparator_def)

text \<open>
  C8 (amended): the edge hash is the hash of the names in the order given, not sorted:
  every input name followed by the unit separator, one more unit separator, every
  output name followed by the unit separator. Equal lists hash equal. For names that
  are not empty and hold no unit separator, two pairs of lists give the same bytes only
  when the lists are equal, so a permutation that changes a list changes the bytes
  hashed.
\<close>

theorem calculateEdgeHash_ordered:
  "calculateEdgeHash sha inputs outputs = sha (edge_stream inputs outputs) \<and>
   (inputs = inputs' \<and> outputs = outputs' \<longrightarrow>
      calculateEdgeHash sha inputs outputs = calculateEdgeHash sha inputs' outputs') \<and>
   ((\<forall>f \<in> set (inputs @ outputs @ inputs' @ outputs'). plain_name f) \<and>
    edge_stream inputs outputs = edge_stream inputs' outputs' \<longrightarrow>
      inputs = inputs' \<and> outputs = outputs')"
  using calculateEdgeHash_stream edge_stream_inj by blast

theorem calculateEdgeHash_ordered_witness:
  "plain_name ''a.cc'' \<and> plain_name ''b.h'' \<and> plain_name ''a.o'' \<and>
   edge_stream [''a.cc'', ''b.h''] [''a.o''] \<noteq> edge_stream [''b.h'', ''a.cc''] [''a.o''] \<and>
   calculateEdgeHash length [''a.cc'', ''b.h''] [''a.o''] = 14"
proof -
  have p: "\<forall>f \<in> set ([''a.cc'', ''b.h''] @ [''a.o''] @ [''b.h'', ''a.cc''] @ [''a.o'']). plain_name f"
    by (simp add: plain_name_def)
  have n: "[''a.cc'', ''b.h''] \<noteq> [''b.h'', ''a.cc'']" by simp
  note T = calculateEdgeHash_ordered[of length "[''a.cc'', ''b.h'']" "[''a.o'']"
             "[''b.h'', ''a.cc'']" "[''a.o'']"]
  have 1: "edge_stream [''a.cc'', ''b.h''] [''a.o''] \<noteq> edge_stream [''b.h'', ''a.cc''] [''a.o'']"
    using T p n by blast
  have 2: "calculateEdgeHash length [''a.cc'', ''b.h''] [''a.o''] = 14"
    using T by (simp add: edge_stream_def unitSeparator_def)
  have q: "plain_name ''a.cc'' \<and> plain_name ''b.h'' \<and> plain_name ''a.o''"
    by (simp add: plain_name_def)
  show ?thesis using q 1 2 by blast
qed

section \<open>sync/semaphore: the \<open>Prioritized\<close> semaphore\<close>

text \<open>
  The semaphore keeps its waiters in a \<open>priorityQueue\<close>, a slice of pointers to
  \<open>request\<close> values that implements \<open>heap.Interface\<close>. The requests live in a store
  \<open>mem\<close>, a pointer is an address in it, and \<open>pq\<close> is the slice of pointers; two
  requests of one weight stay two requests. The channel \<open>ready\<close> of a request carries at
  most one value: \<open>None\<close> before the send, \<open>Some tid\<close> after it. The name, the trace spans
  and the counters \<open>waits\<close> and \<open>reqs\<close>, which no decision reads, are left out.
\<close>

datatype rstate = stateWaiting | stateAcquired | stateCanceled

record request =
  weight :: int
  ready :: "int option"
  index :: int
  state :: rstate

record Prioritized =
  capacity :: int
  used :: int
  pq :: "nat list"
  mem :: "request list"

text \<open>The methods of \<open>priorityQueue\<close>: a higher weight comes first.\<close>

definition Len :: "Prioritized \<Rightarrow> nat" where
  "Len s = length (pq s)"

definition Less :: "Prioritized \<Rightarrow> nat \<Rightarrow> nat \<Rightarrow> bool" where
  "Less s i j \<longleftrightarrow> weight (mem s ! (pq s ! i)) > weight (mem s ! (pq s ! j))"

definition set_index :: "nat \<Rightarrow> int \<Rightarrow> request list \<Rightarrow> request list" where
  "set_index p i m = m[p := (m ! p)\<lparr>index := i\<rparr>]"

definition Swap :: "Prioritized \<Rightarrow> nat \<Rightarrow> nat \<Rightarrow> Prioritized" where
  "Swap s i j =
     (let q = (pq s)[i := pq s ! j, j := pq s ! i]
      in s\<lparr>pq := q, mem := set_index (q ! j) (int j) (set_index (q ! i) (int i) (mem s))\<rparr>)"

definition Push :: "Prioritized \<Rightarrow> nat \<Rightarrow> Prioritized" where
  "Push s x = s\<lparr>pq := pq s @ [x], mem := set_index x (int (length (pq s))) (mem s)\<rparr>"

definition Pop :: "Prioritized \<Rightarrow> nat \<times> Prioritized" where
  "Pop s =
     (let n = length (pq s);
          req = pq s ! (n - 1)
      in (req, s\<lparr>pq := butlast (pq s), mem := set_index req (- 1) (mem s)\<rparr>))"

text \<open>
  \<open>up\<close>, \<open>down\<close>, \<open>heap.Push\<close>, \<open>heap.Pop\<close> and \<open>heap.Remove\<close> of Go's \<open>container/heap\<close>,
  which the semaphore calls on its queue. Indices are natural numbers: the only place
  where the library's \<open>int\<close> arithmetic differs is \<open>(j - 1) / 2\<close> at \<open>j = 0\<close>, which is 0
  in both (Go's division truncates, the subtraction on \<open>nat\<close> stops at 0).
\<close>

function up :: "Prioritized \<Rightarrow> nat \<Rightarrow> Prioritized" where
  "up s j =
     (let i = (j - 1) div 2
      in if i = j \<or> \<not> Less s j i then s else up (Swap s i j) i)"
  by pat_completeness auto
termination
  by (relation "measure (\<lambda>(s, j). j)") auto

declare up.simps [simp del]

function down_loop :: "Prioritized \<Rightarrow> nat \<Rightarrow> nat \<Rightarrow> Prioritized \<times> nat" where
  "down_loop s i n =
     (let j1 = 2 * i + 1
      in if j1 \<ge> n then (s, i)
         else (let j = (if j1 + 1 < n \<and> Less s (j1 + 1) j1 then j1 + 1 else j1)
               in if \<not> Less s j i then (s, i) else down_loop (Swap s i j) j n))"
  by pat_completeness auto
termination
  by (relation "measure (\<lambda>(s, i, n). n - i)") auto

declare down_loop.simps [simp del]

definition down :: "Prioritized \<Rightarrow> nat \<Rightarrow> nat \<Rightarrow> Prioritized \<times> bool" where
  "down s i0 n = (let (s', i) = down_loop s i0 n in (s', i > i0))"

definition heap_Push :: "Prioritized \<Rightarrow> nat \<Rightarrow> Prioritized" where
  "heap_Push s x = (let s = Push s x in up s (Len s - 1))"

definition heap_Pop :: "Prioritized \<Rightarrow> nat \<times> Prioritized" where
  "heap_Pop s =
     (let n = Len s - 1;
          s = Swap s 0 n;
          s = fst (down s 0 n)
      in Pop s)"

definition heap_Remove :: "Prioritized \<Rightarrow> nat \<Rightarrow> nat \<times> Prioritized" where
  "heap_Remove s i =
     (let n = Len s - 1;
          s = (if n \<noteq> i
               then (let s = Swap s i n;
                         (s, moved) = down s i n
                     in if \<not> moved then up s i else s)
               else s)
      in Pop s)"


subsection \<open>What the heap operations leave alone\<close>

text \<open>
  The heap operations move pointers inside \<open>pq\<close> and write \<open>index\<close> fields; weights,
  states, channels and the counters stay as they are.
\<close>

definition moved_only :: "Prioritized \<Rightarrow> Prioritized \<Rightarrow> bool" where
  "moved_only s s' \<longleftrightarrow>
     capacity s' = capacity s \<and> used s' = used s \<and> length (mem s') = length (mem s) \<and>
     (\<forall>p. weight (mem s' ! p) = weight (mem s ! p) \<and> state (mem s' ! p) = state (mem s ! p) \<and>
          ready (mem s' ! p) = ready (mem s ! p))"



lemma set_index_fields:
  "weight (set_index p i m ! q) = weight (m ! q)"
  "state (set_index p i m ! q) = state (m ! q)"
  "ready (set_index p i m ! q) = ready (m ! q)"
  "length (set_index p i m) = length m"
  by (cases "p < length m"; cases "p = q"; simp add: set_index_def list_update_beyond)+

lemma set_index_index:
  "index (set_index p i m ! q) = (if p = q \<and> p < length m then i else index (m ! q))"
  by (cases "p < length m"; cases "p = q"; simp add: set_index_def list_update_beyond)




lemma pq_Swap: "pq (Swap s i j) = (pq s)[i := pq s ! j, j := pq s ! i]"
  by (simp add: Swap_def Let_def)







text \<open>One unfolding of the loop of \<open>down\<close>, with the child that is compared.\<close>

definition down_child :: "Prioritized \<Rightarrow> nat \<Rightarrow> nat \<Rightarrow> nat" where
  "down_child s i n = (if 2 * i + 2 < n \<and> Less s (2 * i + 2) (2 * i + 1) then 2 * i + 2 else 2 * i + 1)"

lemma down_loop_stop:
  "n \<le> 2 * i + 1 \<or> \<not> Less s (down_child s i n) i \<Longrightarrow> down_loop s i n = (s, i)"
  by (subst down_loop.simps) (auto simp: Let_def down_child_def)

lemma down_loop_step:
  "2 * i + 1 < n \<Longrightarrow> Less s (down_child s i n) i \<Longrightarrow>
   down_loop s i n = down_loop (Swap s i (down_child s i n)) (down_child s i n) n"
  by (subst down_loop.simps) (auto simp: Let_def down_child_def)

lemma down_loop_cases [case_names stop step]:
  assumes "n \<le> 2 * i + 1 \<or> \<not> Less s (down_child s i n) i \<Longrightarrow> P"
    and "2 * i + 1 < n \<Longrightarrow> Less s (down_child s i n) i \<Longrightarrow> P"
  shows P
  using assms by (cases "n \<le> 2 * i + 1") auto

lemma down_child_gt: "i < down_child s i n"
  by (simp add: down_child_def)

lemma down_child_lt: "2 * i + 1 < n \<Longrightarrow> down_child s i n < n"
  by (simp add: down_child_def)

lemma down_loop_induct [case_names loop]:
  assumes "\<And>s i n. (2 * i + 1 < n \<Longrightarrow> Less s (down_child s i n) i \<Longrightarrow>
                      P (Swap s i (down_child s i n)) (down_child s i n) n) \<Longrightarrow> P s i n"
  shows "P s i n"
proof (induction "n - i" arbitrary: s i rule: less_induct)
  case less
  show ?case
  proof (rule assms)
    assume a: "2 * i + 1 < n" "Less s (down_child s i n) i"
    have "n - down_child s i n < n - i"
      using a(1) down_child_gt[of i s n] down_child_lt[OF a(1), of s] by linarith
    then show "P (Swap s i (down_child s i n)) (down_child s i n) n"
      by (rule less)
  qed
qed


lemma length_pq_down_loop: "length (pq (fst (down_loop s i n))) = length (pq s)"
proof (induction s i n rule: down_loop_induct)
  case (loop s i n)
  show ?case
  proof (cases rule: down_loop_cases[of n i s])
    case stop
    then show ?thesis by (simp add: down_loop_stop)
  next
    case step
    then show ?thesis using loop by (simp add: down_loop_step pq_Swap)
  qed
qed


lemma fst_down: "fst (down s i n) = fst (down_loop s i n)"
  by (simp add: down_def split: prod.splits)

lemma length_pq_heap_Pop: "length (pq (snd (heap_Pop s))) = length (pq s) - 1"
  by (simp add: heap_Pop_def Pop_def Let_def fst_down length_pq_down_loop pq_Swap)

subsection \<open>\<open>WaitAcquire\<close> and \<open>privateRelease\<close>\<close>

text \<open>
  The part of \<open>WaitAcquire\<close> under the first lock: with a free slot it returns the slot's
  \<open>tid\<close>, otherwise it allocates the request, pushes it and goes on to the \<open>select\<close>.
  \<open>heap.Init\<close> on the empty queue of \<open>NewPrioritized\<close> does nothing.
\<close>

definition NewPrioritized :: "int \<Rightarrow> Prioritized" where
  "NewPrioritized n = \<lparr>capacity = n, used = 0, pq = [], mem = []\<rparr>"

datatype acquired = Granted int | Queued nat

definition WaitAcquire_enter :: "Prioritized \<Rightarrow> int \<Rightarrow> acquired \<times> Prioritized" where
  "WaitAcquire_enter s w =
     (if used s < capacity s
      then (let tid = used s in (Granted tid, s\<lparr>used := used s + 1\<rparr>))
      else (let req = length (mem s);
                s = s\<lparr>mem := mem s @ [\<lparr>weight = w, ready = None, index = 0,
                                         state = stateWaiting\<rparr>]\<rparr>
            in (Queued req, heap_Push s req)))"

text \<open>
  \<open>req.state.CompareAndSwap(old, new)\<close> and the send \<open>req.ready <- tid\<close>, which the
  waiter receives.
\<close>

definition CompareAndSwap :: "Prioritized \<Rightarrow> nat \<Rightarrow> rstate \<Rightarrow> rstate \<Rightarrow> bool \<times> Prioritized" where
  "CompareAndSwap s req old new =
     (if state (mem s ! req) = old
      then (True, s\<lparr>mem := (mem s)[req := (mem s ! req)\<lparr>state := new\<rparr>]\<rparr>)
      else (False, s))"

definition send_ready :: "Prioritized \<Rightarrow> nat \<Rightarrow> int \<Rightarrow> Prioritized" where
  "send_ready s req tid = s\<lparr>mem := (mem s)[req := (mem s ! req)\<lparr>ready := Some tid\<rparr>]\<rparr>"

lemma pq_CompareAndSwap [simp]: "pq (snd (CompareAndSwap s req old new)) = pq s"
  by (simp add: CompareAndSwap_def)

function privateRelease :: "Prioritized \<Rightarrow> int \<Rightarrow> nat option \<times> Prioritized" where
  "privateRelease s tid =
     (if Len s > 0
      then (let (req, s1) = heap_Pop s;
                (ok, s2) = CompareAndSwap s1 req stateWaiting stateAcquired
            in if ok then (Some req, send_ready s2 req tid)
               else privateRelease s2 tid)
      else (None, s\<lparr>used := used s - 1\<rparr>))"
  by pat_completeness auto
termination
proof (relation "measure (\<lambda>(s, tid). length (pq s))")
  show "wf (measure (\<lambda>(s, tid). length (pq s)))" by simp
next
  fix s :: Prioritized and tid x xa y xb xc yb
  assume "0 < Len s" "x = heap_Pop s" "(xa, y) = x"
    "xb = CompareAndSwap y xa stateWaiting stateAcquired" "(xc, yb) = xb"
  then have "yb = snd (CompareAndSwap (snd (heap_Pop s)) xa stateWaiting stateAcquired)"
    and "0 < length (pq s)"
    by (simp_all add: Len_def split: prod.splits) (metis snd_conv)+
  then have "length (pq yb) < length (pq s)"
    using length_pq_heap_Pop[of s] by simp
  then show "((yb, tid), s, tid) \<in> measure (\<lambda>(s, tid). length (pq s))" by simp
qed

declare privateRelease.simps [simp del]

text \<open>
  The waiter's side of the \<open>select\<close> in \<open>WaitAcquire\<close>. \<open>case tid := <-req.ready\<close>
  returns the value sent. \<open>case <-ctx.Done()\<close> first tries to cancel the request; when
  that fails it receives from \<open>req.ready\<close>, when it succeeds it takes the lock and
  removes the request from the queue unless its index is \<open>-1\<close>.
\<close>

definition receive_ready :: "Prioritized \<Rightarrow> nat \<Rightarrow> int option" where
  "receive_ready s req = ready (mem s ! req)"

definition cancel_remove :: "Prioritized \<Rightarrow> nat \<Rightarrow> Prioritized" where
  "cancel_remove s req =
     (if index (mem s ! req) \<noteq> - 1 then snd (heap_Remove s (nat (index (mem s ! req)))) else s)"

definition WaitAcquire_ctx_done ::
  "Prioritized \<Rightarrow> nat \<Rightarrow> 'e \<Rightarrow> ('e + int option) \<times> Prioritized" where
  "WaitAcquire_ctx_done s req oerr =
     (let (ok, s1) = CompareAndSwap s req stateWaiting stateCanceled
      in if \<not> ok then (Inr (receive_ready s1 req), s1)
         else (Inl oerr, cancel_remove s1 req))"

fun enqueue :: "int list \<Rightarrow> Prioritized \<Rightarrow> Prioritized" where
  "enqueue [] s = s"
| "enqueue (w # ws) s = enqueue ws (snd (WaitAcquire_enter s w))"

fun releases :: "nat \<Rightarrow> int \<Rightarrow> Prioritized \<Rightarrow> nat option list \<times> Prioritized" where
  "releases 0 tid s = ([], s)"
| "releases (Suc k) tid s =
     (let (g, s') = privateRelease s tid;
          (gs, s'') = releases k tid s'
      in (g # gs, s''))"

subsection \<open>The heap order of the weights\<close>

definition keys :: "Prioritized \<Rightarrow> int list" where
  "keys s = map (\<lambda>p. weight (mem s ! p)) (pq s)"

definition parent :: "nat \<Rightarrow> nat" where
  "parent k = (k - 1) div 2"

definition is_heap_upto :: "int list \<Rightarrow> nat \<Rightarrow> bool" where
  "is_heap_upto ws n \<longleftrightarrow> (\<forall>k<n. 0 < k \<longrightarrow> ws ! k \<le> ws ! parent k)"

text \<open>
  The heap order holds on every edge that does not touch \<open>i\<close>, and the children of
  \<open>i\<close> are in order with the parent of \<open>i\<close>.
\<close>

definition hole :: "int list \<Rightarrow> nat \<Rightarrow> nat \<Rightarrow> bool" where
  "hole ws i n \<longleftrightarrow>
     (\<forall>k<n. 0 < k \<longrightarrow> k \<noteq> i \<longrightarrow> parent k \<noteq> i \<longrightarrow> ws ! k \<le> ws ! parent k) \<and>
     (\<forall>k<n. 0 < k \<longrightarrow> 0 < i \<longrightarrow> parent k = i \<longrightarrow> ws ! k \<le> ws ! parent i)"



lemma parent_less: "0 < k \<Longrightarrow> parent k < k"
  by (simp add: parent_def)

lemma parent_le: "parent k \<le> k"
  by (simp add: parent_def)


lemma parent_iff_up: "(j - 1) div 2 = j \<longleftrightarrow> j = (0::nat)"
  by linarith


lemma hole_from_heap: "is_heap_upto ws n \<Longrightarrow> hole ws i n"
  unfolding hole_def is_heap_upto_def
proof (intro conjI allI impI)
  fix k assume h: "\<forall>k<n. 0 < k \<longrightarrow> ws ! k \<le> ws ! parent k" and k: "k < n" "0 < k"
  then show "ws ! k \<le> ws ! parent k" by simp
next
  fix k assume h: "\<forall>k<n. 0 < k \<longrightarrow> ws ! k \<le> ws ! parent k" and k: "k < n" "0 < k" "0 < i" "parent k = i"
  have "i < n" using k parent_less[of k] by simp
  then have "ws ! i \<le> ws ! parent i" using h k by simp
  moreover have "ws ! k \<le> ws ! i" using h k by auto
  ultimately show "ws ! k \<le> ws ! parent i" by simp
qed

lemma heap_upto_mono: "is_heap_upto ws n \<Longrightarrow> m \<le> n \<Longrightarrow> is_heap_upto ws m"
  by (simp add: is_heap_upto_def)


lemma keys_length [simp]: "length (keys s) = length (pq s)"
  by (simp add: keys_def)




lemma keys_moved_only:
  "moved_only s s' \<Longrightarrow> pq s' = pq s \<Longrightarrow> keys s' = keys s"
  by (simp add: keys_def moved_only_def)







subsection \<open>The index fields\<close>

definition idx_ok :: "Prioritized \<Rightarrow> bool" where
  "idx_ok s \<longleftrightarrow>
     distinct (pq s) \<and>
     (\<forall>k<length (pq s). pq s ! k < length (mem s) \<and> index (mem s ! (pq s ! k)) = int k) \<and>
     (\<forall>p<length (mem s). p \<notin> set (pq s) \<longrightarrow> index (mem s ! p) = - 1)"










definition heap_ok :: "Prioritized \<Rightarrow> bool" where
  "heap_ok s \<longleftrightarrow> is_heap_upto (keys s) (length (pq s)) \<and> idx_ok s"

lemma is_heap_upto_cong:
  "(\<And>k. k < n \<Longrightarrow> ws ! k = vs ! k) \<Longrightarrow> is_heap_upto ws n = is_heap_upto vs n"
  unfolding is_heap_upto_def using parent_le by (metis le_less_trans)

lemma is_heap_upto_take: "n \<le> length ws \<Longrightarrow> is_heap_upto (take n ws) n = is_heap_upto ws n"
  by (rule is_heap_upto_cong) simp

lemma keys_Pop: "keys (snd (Pop s)) = butlast (keys s)"
  by (simp add: keys_def Pop_def Let_def set_index_fields map_butlast)

lemma pq_Pop: "pq (snd (Pop s)) = butlast (pq s)" "fst (Pop s) = pq s ! (length (pq s) - 1)"
  by (simp_all add: Pop_def Let_def)

lemma idx_ok_Pop:
  assumes "idx_ok s" "pq s \<noteq> []"
  shows "idx_ok (snd (Pop s))"
proof -
  let ?n = "length (pq s) - 1"
  let ?r = "pq s ! ?n"
  have d: "distinct (pq s)"
    and in_mem: "\<And>k. k < length (pq s) \<Longrightarrow> pq s ! k < length (mem s)"
    and idx: "\<And>k. k < length (pq s) \<Longrightarrow> index (mem s ! (pq s ! k)) = int k"
    and out: "\<And>p. p < length (mem s) \<Longrightarrow> p \<notin> set (pq s) \<Longrightarrow> index (mem s ! p) = - 1"
    using assms(1) by (simp_all add: idx_ok_def)
  have n: "?n < length (pq s)" using assms(2) by simp
  have bl: "pq s = butlast (pq s) @ [?r]"
    using assms(2) by (metis append_butlast_last_id last_conv_nth)
  have rnot: "?r \<notin> set (butlast (pq s))" using d bl by (metis distinct_append disjoint_iff list.set_intros(1) not_distinct_conv_prefix)
  have a: "index (set_index ?r (- 1) (mem s) ! (butlast (pq s) ! k)) = int k"
    if "k < length (butlast (pq s))" for k
  proof -
    have k: "k < length (pq s)" "butlast (pq s) ! k = pq s ! k"
      using that by (simp_all add: nth_butlast)
    have "butlast (pq s) ! k \<in> set (butlast (pq s))" using that by simp
    then have "butlast (pq s) ! k \<noteq> ?r" using rnot by auto
    then show ?thesis using idx[OF k(1)] k(2) by (simp add: set_index_index)
  qed
  have b: "index (set_index ?r (- 1) (mem s) ! p) = - 1"
    if "p < length (mem s)" "p \<notin> set (butlast (pq s))" for p
  proof (cases "p = ?r")
    case True
    then show ?thesis using that by (simp add: set_index_index)
  next
    case False
    then have "p \<notin> set (pq s)" using that bl by (metis Un_iff set_append empty_iff insert_iff list.set(1) list.simps(15))
    then show ?thesis using out that False by (simp add: set_index_index)
  qed
  have c: "butlast (pq s) ! k < length (mem s)" if "k < length (butlast (pq s))" for k
    using that in_mem[of k] by (simp add: nth_butlast)
  show ?thesis
    unfolding idx_ok_def using d a b c
    by (simp add: Pop_def Let_def set_index_fields distinct_butlast)
qed

lemma heap_ok_butlast:
  assumes "heap_ok s" "pq s \<noteq> []"
  shows "heap_ok (snd (Pop s))"
proof -
  have "is_heap_upto (keys s) (length (pq s) - 1)"
    using assms(1) heap_upto_mono by (auto simp: heap_ok_def)
  then have "is_heap_upto (butlast (keys s)) (length (pq s) - 1)"
    using is_heap_upto_take[of "length (pq s) - 1" "keys s"] by (simp add: butlast_conv_take)
  then show ?thesis
    using assms idx_ok_Pop by (simp add: heap_ok_def keys_Pop pq_Pop)
qed






subsection \<open>The invariant of the semaphore\<close>

















lemma WaitAcquire_enter_granted:
  "used s < capacity s \<Longrightarrow> WaitAcquire_enter s w = (Granted (used s), s\<lparr>used := used s + 1\<rparr>)"
  by (simp add: WaitAcquire_enter_def Let_def)







subsection \<open>The order of the grants\<close>

text \<open>
  The scenario of the priority test: a semaphore of capacity 1 whose slot is taken by a
  first \<open>WaitAcquire\<close> of weight \<open>w0\<close>, then one queued \<open>WaitAcquire\<close> for each weight of
  \<open>ws\<close>. No request was made before, so the request of the \<open>k\<close>-th waiter is at address
  \<open>k\<close>.
\<close>

definition held_then_queued :: "int \<Rightarrow> int list \<Rightarrow> Prioritized" where
  "held_then_queued w0 ws = enqueue ws (snd (WaitAcquire_enter (NewPrioritized 1) w0))"



subsection \<open>Cancellation\<close>



lemma CompareAndSwap_fail:
  "state (mem s ! r) \<noteq> old \<Longrightarrow> CompareAndSwap s r old new = (False, s)"
  by (simp add: CompareAndSwap_def)

lemma CompareAndSwap_success:
  "state (mem s ! r) = old \<Longrightarrow>
   CompareAndSwap s r old new = (True, s\<lparr>mem := (mem s)[r := (mem s ! r)\<lparr>state := new\<rparr>]\<rparr>)"
  by (simp add: CompareAndSwap_def)



text \<open>
  A waiter whose context is done before any release: the whole \<open>case <-ctx.Done()\<close> branch
  of \<open>WaitAcquire\<close>. After the queue is filled, the waiters of the requests \<open>cs\<close> are
  canceled one after the other.
\<close>

definition cancel_waiter :: "Prioritized \<Rightarrow> nat \<Rightarrow> Prioritized" where
  "cancel_waiter s req = snd (WaitAcquire_ctx_done s req ())"

definition held_queued_canceled :: "int \<Rightarrow> int list \<Rightarrow> nat list \<Rightarrow> Prioritized" where
  "held_queued_canceled w0 ws cs = foldl cancel_waiter (held_then_queued w0 ws) cs"








text \<open>
  The same run evaluated: waiter 0 is canceled, waiter 1 (weight 20) and waiter 2
  (weight 1) are granted, the third release frees the slot.
\<close>

lemma Prioritized_cancel_example:
  "fst (releases 3 0 (held_queued_canceled 5 [10, 20, 1] [0])) = [Some 1, Some 2, None]"
  by code_simp


end
